theory Spec2Isabelle
  imports Complex_Main "HOL-Library.Word" "HOL-Library.Signed_Division"
begin

unbundle bit_operations_syntax

section \<open>The communicator (src/lbann\_comm.cpp)\<close>

text \<open>
  C++ \<open>int\<close> values are modelled as \<open>int\<close>; \<open>/\<close> and \<open>%\<close> on \<open>int\<close> truncate towards
  zero and are written \<open>sdiv\<close> and \<open>smod\<close>. The world size and the rank of the calling
  process come from the transport (\<open>mpi::Size\<close>, \<open>mpi::Rank\<close> of \<open>COMM_WORLD\<close>) and are
  parameters of the model. The exception type \<open>lbann_exception\<close> carries only a message;
  the two throws of the constructor are the error \<open>InvalidTopology\<close>. A division by zero
  (undefined in C++) is its own error value, so that it is never read as a result.
\<close>

datatype error = InvalidTopology | DivisionByZero | SubsetTooLarge | MissingConfiguration

record lbann_comm =
  procs_per_model :: int
  num_models :: int
  model_rank :: int
  rank_in_model :: int
  num_model_barriers :: nat
  num_intermodel_barriers :: nat
  num_global_barriers :: nat
  bytes_sent :: nat
  bytes_received :: nat

text \<open>Lines 61 to 63: the member \<open>procs_per_model\<close> after the zero substitution.\<close>

definition init_procs_per_model :: "int \<Rightarrow> int \<Rightarrow> int" where
  "init_procs_per_model world_size procs_per_model_arg =
     (if procs_per_model_arg = 0 then world_size else procs_per_model_arg)"

text \<open>
  The constructor up to the end of the validation (lines 54 to 82). The communicator
  splits, the grid and the node communicator that follow are transport objects and are
  not part of the value.
\<close>

definition lbann_comm_init :: "int \<Rightarrow> int \<Rightarrow> int \<Rightarrow> error + lbann_comm" where
  "lbann_comm_init world_size world_rank procs_per_model_arg =
     (let ppm = init_procs_per_model world_size procs_per_model_arg in
      if ppm = 0 then Inl DivisionByZero
      else
        let nm = world_size sdiv ppm;
            mr = world_rank sdiv ppm;
            rim = world_rank smod ppm
        in if ppm > world_size then Inl InvalidTopology
           else if world_size smod ppm \<noteq> 0 then Inl InvalidTopology
           else Inr \<lparr> procs_per_model = ppm, num_models = nm, model_rank = mr,
                      rank_in_model = rim, num_model_barriers = 0,
                      num_intermodel_barriers = 0, num_global_barriers = 0,
                      bytes_sent = 0, bytes_received = 0 \<rparr>)"

subsection \<open>Dense matrices\<close>

text \<open>
  A local matrix \<open>Mat\<close> knows its height and holds its entries column major: \<open>Buffer\<close> is
  the list of its columns, each column the list of its entries, and the width is the
  number of columns. In a matrix the code can build, every column has \<open>Height\<close> entries
  (\<open>mat_shape\<close> below); a matrix without columns still has its height.
  \<open>mat(ALL, IR(lo, hi))\<close> is the view of the columns \<open>lo..<hi\<close>; writing through a view
  changes these columns of the matrix.
\<close>

record 'a Mat =
  Height :: nat
  Buffer :: "'a list list"

definition Width :: "'a Mat \<Rightarrow> nat" where
  "Width m = length (Buffer m)"

subsection \<open>Dispatch of the transform-aware allreduce\<close>

datatype algorithm = RecursiveDoubling | PairwiseExchangeRing

text \<open>
  Lines 241 to 257 of \<open>intermodel_allreduce\<close>: which algorithm is called, from the
  number of models and from \<open>mat.Height()\<close> and \<open>mat.Width()\<close>.
\<close>

definition intermodel_allreduce_algorithm :: "int \<Rightarrow> nat \<Rightarrow> nat \<Rightarrow> algorithm" where
  "intermodel_allreduce_algorithm nprocs height width =
     (if nprocs AND (nprocs - 1) \<noteq> 0 then PairwiseExchangeRing
      else if height \<le> 64 \<and> width \<le> 64 then RecursiveDoubling
      else PairwiseExchangeRing)"

subsection \<open>Byte accounting of the matrix collectives\<close>

text \<open>
  \<open>bytes_sent\<close> and \<open>bytes_received\<close> are \<open>size_t\<close> counters: additions wrap at \<open>2^64\<close>.
  \<open>sizeof(DataType)\<close> is fixed by a header that is not among the sources and is a
  parameter. The reductions and broadcasts themselves are done by the linear-algebra
  library on the transport; the functions below are what the calls do to the
  communicator. A distributed matrix is given by its local tile, whose dimensions are
  \<open>LocalHeight\<close> and \<open>LocalWidth\<close>.
\<close>

definition size_t_add :: "nat \<Rightarrow> nat \<Rightarrow> nat" where
  "size_t_add a b = (a + b) mod 2 ^ 64"

definition intermodel_sum_matrix :: "nat \<Rightarrow> 'a Mat \<Rightarrow> lbann_comm \<Rightarrow> lbann_comm" where
  "intermodel_sum_matrix sizeof_DataType mat c =
     (let c1 = c\<lparr>bytes_sent :=
                 size_t_add (bytes_sent c) (sizeof_DataType * Height mat * Width mat)\<rparr>
      in c1\<lparr>bytes_received :=
               size_t_add (bytes_received c1) (sizeof_DataType * Height mat * Width mat)\<rparr>)"

definition LocalHeight :: "'a Mat \<Rightarrow> nat" where
  "LocalHeight local_tile = Height local_tile"

definition LocalWidth :: "'a Mat \<Rightarrow> nat" where
  "LocalWidth local_tile = Width local_tile"

definition intermodel_sum_matrix_dist :: "nat \<Rightarrow> 'a Mat \<Rightarrow> lbann_comm \<Rightarrow> lbann_comm" where
  "intermodel_sum_matrix_dist sizeof_DataType local_tile c =
     (let c1 = c\<lparr>bytes_sent :=
                 size_t_add (bytes_sent c)
                   (sizeof_DataType * LocalHeight local_tile * LocalWidth local_tile)\<rparr>
      in c1\<lparr>bytes_received :=
               size_t_add (bytes_received c1)
                 (sizeof_DataType * LocalHeight local_tile * LocalWidth local_tile)\<rparr>)"

text \<open>
  Lines 138 to 144: both overloads of \<open>intermodel_broadcast_matrix\<close> only call
  \<open>Broadcast\<close>; no member of the communicator is written.
\<close>

definition intermodel_broadcast_matrix :: "'a Mat \<Rightarrow> int \<Rightarrow> lbann_comm \<Rightarrow> lbann_comm" where
  "intermodel_broadcast_matrix mat root_rank c = c"

definition intermodel_broadcast_matrix_dist :: "'a Mat \<Rightarrow> int \<Rightarrow> lbann_comm \<Rightarrow> lbann_comm" where
  "intermodel_broadcast_matrix_dist local_tile root_rank c = c"

subsection \<open>The collective buffer pool\<close>

text \<open>
  \<open>collective_bufs\<close> maps a size to the vector of the buffers of that size. A buffer is
  known by its address. The heap is the list of the sizes of the blocks allocated so
  far: the block allocated \<open>k\<close>-th has address \<open>k + 1\<close>, and address \<open>0\<close> is the null
  pointer. \<open>new uint8_t[size]\<close> appends a block; nothing in \<open>get_collective_buffer\<close>
  removes one.
\<close>

record buffer_pool =
  collective_bufs :: "nat \<rightharpoonup> nat list"
  heap_blocks :: "nat list"

definition nullptr :: nat where
  "nullptr = 0"

definition new_uint8 :: "nat \<Rightarrow> buffer_pool \<Rightarrow> nat \<times> buffer_pool" where
  "new_uint8 size_bytes p =
     (Suc (length (heap_blocks p)), p\<lparr>heap_blocks := heap_blocks p @ [size_bytes]\<rparr>)"

definition get_collective_buffer :: "nat \<Rightarrow> nat \<Rightarrow> buffer_pool \<Rightarrow> nat \<times> buffer_pool" where
  "get_collective_buffer size_bytes idx p =
     (case collective_bufs p size_bytes of
        None \<Rightarrow>
          if idx \<noteq> 0 then (nullptr, p)
          else
            let (buf, p1) = new_uint8 size_bytes p;
                p2 = p1\<lparr>collective_bufs := (collective_bufs p1)(size_bytes \<mapsto> [buf])\<rparr>
            in (buf, p2)
      | Some bufs \<Rightarrow>
          if length bufs > idx then (bufs ! idx, p)
          else if length bufs \<noteq> idx then (nullptr, p)
          else
            let (buf, p1) = new_uint8 size_bytes p;
                p2 = p1\<lparr>collective_bufs := (collective_bufs p1)(size_bytes \<mapsto> bufs @ [buf])\<rparr>
            in (buf, p2))"

text \<open>A sequence of requests, each a pair of a size and an index, in order.\<close>

fun get_collective_buffers :: "(nat \<times> nat) list \<Rightarrow> buffer_pool \<Rightarrow> buffer_pool" where
  "get_collective_buffers [] p = p"
| "get_collective_buffers ((size_bytes, idx) # reqs) p =
     get_collective_buffers reqs (snd (get_collective_buffer size_bytes idx p))"

definition empty_pool :: buffer_pool where
  "empty_pool = \<lparr>collective_bufs = Map.empty, heap_blocks = []\<rparr>"

text \<open>The length of the bucket for a size; a size with no bucket has length 0.\<close>

definition bucket_len :: "buffer_pool \<Rightarrow> nat \<Rightarrow> nat" where
  "bucket_len p size_bytes = (case collective_bufs p size_bytes of None \<Rightarrow> 0 | Some bufs \<Rightarrow> length bufs)"

subsection \<open>The transform-aware allreduce on all ranks\<close>

text \<open>
  Index ranges of a matrix: \<open>ALL_IR\<close> (the \<open>ALL\<close> of the source), or \<open>IR(lo, hi)\<close> for the indices \<open>lo..<hi\<close>.
  \<open>mat(ALL, cols)\<close> is a view: \<open>view\<close> reads its columns, \<open>update_view\<close> is the matrix
  after the columns of the view have been overwritten.
\<close>

datatype index_range = ALL_IR | IR nat nat

fun range_lo :: "index_range \<Rightarrow> nat \<Rightarrow> nat" where
  "range_lo ALL_IR n = 0"
| "range_lo (IR lo hi) n = lo"

fun range_hi :: "index_range \<Rightarrow> nat \<Rightarrow> nat" where
  "range_hi ALL_IR n = n"
| "range_hi (IR lo hi) n = hi"

definition view :: "'a Mat \<Rightarrow> index_range \<Rightarrow> 'a Mat" where
  "view mat cols =
     mat\<lparr>Buffer := take (range_hi cols (Width mat) - range_lo cols (Width mat))
                       (drop (range_lo cols (Width mat)) (Buffer mat))\<rparr>"

definition update_view :: "'a Mat \<Rightarrow> index_range \<Rightarrow> 'a Mat \<Rightarrow> 'a Mat" where
  "update_view mat cols v =
     mat\<lparr>Buffer := take (range_lo cols (Width mat)) (Buffer mat) @ Buffer v
                       @ drop (range_hi cols (Width mat)) (Buffer mat)\<rparr>"

text \<open>
  The three callbacks of \<open>intermodel_allreduce\<close>. A message is a value of type \<open>'b\<close>;
  \<open>send_transform(mat, rows, cols, send_size, is_partial)\<close> encodes the slice of \<open>mat\<close>,
  \<open>recv_transform(buf, dest)\<close> decodes a message into the view \<open>dest\<close>, and
  \<open>recv_apply_transform(buf, dest)\<close> decodes it and reduces it into \<open>dest\<close>; the latter two
  are given by the contents of \<open>dest\<close> after the call. The byte counts the callbacks
  return only feed \<open>bytes_sent\<close> and \<open>bytes_received\<close> and are left out, as are the
  scratch buffers: a receive buffer holds the message last received into it, and
  \<open>max_recv_count\<close> is taken to be large enough for every message.
\<close>

record ('a, 'b) transforms =
  send_transform :: "'a Mat \<Rightarrow> index_range \<Rightarrow> index_range \<Rightarrow> bool \<Rightarrow> 'b"
  recv_transform :: "'b \<Rightarrow> 'a Mat \<Rightarrow> 'a Mat"
  recv_apply_transform :: "'b \<Rightarrow> 'a Mat \<Rightarrow> 'a Mat"

text \<open>
  The identity encoding with elementwise sum: the message is the slice itself, decoding
  stores it, and the reduction adds it to the destination entry by entry.
\<close>

definition sub_matrix :: "'a Mat \<Rightarrow> index_range \<Rightarrow> index_range \<Rightarrow> 'a Mat" where
  "sub_matrix mat rows cols =
     (let lo = range_lo rows (Height mat); hi = range_hi rows (Height mat)
      in \<lparr>Height = hi - lo,
          Buffer = map (\<lambda>c. take (hi - lo) (drop lo c)) (Buffer (view mat cols))\<rparr>)"

definition mat_add :: "'a::comm_monoid_add Mat \<Rightarrow> 'a Mat \<Rightarrow> 'a Mat" where
  "mat_add A B = A\<lparr>Buffer := map2 (map2 (+)) (Buffer A) (Buffer B)\<rparr>"

definition sum_transforms :: "('a::comm_monoid_add, 'a Mat) transforms" where
  "sum_transforms =
     \<lparr>send_transform = (\<lambda>mat rows cols is_partial. sub_matrix mat rows cols),
      recv_transform = (\<lambda>buf dest. dest\<lparr>Buffer := Buffer buf\<rparr>),
      recv_apply_transform = (\<lambda>buf dest. mat_add dest buf)\<rparr>"

text \<open>
  The processes run the same code in lockstep: every step is one \<open>mpi::SendRecv\<close>, which
  returns when the message of the step's source has arrived. The state of the
  collective is the list of the matrices of the ranks \<open>0..<nprocs\<close> (with the receive
  buffer of each rank, in the allgather); one step maps it to the state after every
  rank has finished that step. Rank \<open>r\<close> receives at a step what its source sent at the
  same step, computed from the source's state before the step.
\<close>

text \<open>
  \<open>recursive_doubling_allreduce_pow2\<close>, lines 260 to 285. \<open>msk\<close> is the \<open>unsigned int mask\<close> of the source:
  the shift wraps at \<open>2^32\<close>. The \<open>while\<close> loop is a partial function; that it returns
  is part of what is proved about it.
\<close>

definition rd_step :: "('a, 'b) transforms \<Rightarrow> nat \<Rightarrow> 'a Mat list \<Rightarrow> 'a Mat list" where
  "rd_step T msk mats =
     map (\<lambda>rank.
            let partner = rank XOR msk;
                send_buf = send_transform T (mats ! partner) ALL_IR ALL_IR False
            in recv_apply_transform T send_buf (mats ! rank))
       [0..<length mats]"

partial_function (option) rd_loop ::
  "('a, 'b) transforms \<Rightarrow> nat \<Rightarrow> nat \<Rightarrow> 'a Mat list \<Rightarrow> 'a Mat list option" where
  "rd_loop T nprocs msk mats =
     (if msk < nprocs
      then rd_loop T nprocs ((2 * msk) mod 2 ^ 32) (rd_step T msk mats)
      else Some mats)"

declare rd_loop.simps [code]

definition recursive_doubling_allreduce_pow2 ::
  "('a, 'b) transforms \<Rightarrow> 'a Mat list \<Rightarrow> 'a Mat list option" where
  "recursive_doubling_allreduce_pow2 T mats =
     (let nprocs = length mats in
      if int nprocs AND (int nprocs - 1) \<noteq> 0 then Some mats
      else rd_loop T nprocs 1 mats)"

text \<open>
  \<open>pe_ring_allreduce\<close>, lines 287 to 367. First the slices of the columns (lines 296 to
  305); \<open>std::partial_sum\<close> gives the running sums.
\<close>

definition slice_lengths :: "nat \<Rightarrow> nat \<Rightarrow> nat list" where
  "slice_lengths nprocs width =
     (let cols_per_proc = width div nprocs;
          cols_remainder = width mod nprocs
      in map (\<lambda>i. if i < cols_remainder then cols_per_proc + 1 else cols_per_proc)
           [0..<nprocs])"

fun partial_sum_from :: "nat \<Rightarrow> nat list \<Rightarrow> nat list" where
  "partial_sum_from acc [] = []"
| "partial_sum_from acc (x # xs) = (acc + x) # partial_sum_from (acc + x) xs"

definition partial_sum :: "nat list \<Rightarrow> nat list" where
  "partial_sum xs = partial_sum_from 0 xs"

definition slice_ends :: "nat \<Rightarrow> nat \<Rightarrow> nat list" where
  "slice_ends nprocs width = partial_sum (slice_lengths nprocs width)"

text \<open>\<open>IR(slice_ends[i] - slice_lengths[i], slice_ends[i])\<close>.\<close>

definition slice_range :: "nat \<Rightarrow> nat \<Rightarrow> nat \<Rightarrow> index_range" where
  "slice_range nprocs width i =
     IR (slice_ends nprocs width ! i - slice_lengths nprocs width ! i)
        (slice_ends nprocs width ! i)"

text \<open>
  One step of the pairwise-exchange reduce-scatter (lines 311 to 326): rank \<open>src\<close> sends
  the slice of its destination, which is this rank, and the message is reduced into
  \<open>accum_view\<close>, the slice of this rank.
\<close>

definition pe_reduce_scatter_step ::
  "('a, 'b) transforms \<Rightarrow> nat \<Rightarrow> 'a Mat list \<Rightarrow> 'a Mat list" where
  "pe_reduce_scatter_step T step mats =
     (let nprocs = length mats in
      map (\<lambda>rank.
             let src = (rank + nprocs - step) mod nprocs;
                 src_mat = mats ! src;
                 src_dst = (src + step) mod nprocs;
                 send_buf = send_transform T src_mat ALL_IR
                              (slice_range nprocs (Width src_mat) src_dst) True;
                 mat = mats ! rank;
                 accum = slice_range nprocs (Width mat) rank
             in update_view mat accum (recv_apply_transform T send_buf (view mat accum)))
        [0..<nprocs])"

text \<open>
  The first step of the ring allgather (lines 328 to 347): every rank forwards its own
  reduced slice to rank \<open>rank + 1\<close> and decodes the slice of \<open>data_src = rank - 1\<close>. The
  state after it pairs each matrix with the receive buffer \<open>recv_buf\<close>.
\<close>

definition pe_allgather_first ::
  "('a, 'b) transforms \<Rightarrow> 'a Mat list \<Rightarrow> ('a Mat \<times> 'b) list" where
  "pe_allgather_first T mats =
     (let nprocs = length mats in
      map (\<lambda>rank.
             let src = (rank + nprocs - 1) mod nprocs;
                 src_mat = mats ! src;
                 send_buf = send_transform T src_mat ALL_IR
                              (slice_range nprocs (Width src_mat) src) False;
                 mat = mats ! rank;
                 data_src = (rank + nprocs - 1) mod nprocs;
                 recv_view = slice_range nprocs (Width mat) data_src
             in (update_view mat recv_view (recv_transform T send_buf (view mat recv_view)),
                 send_buf))
        [0..<nprocs])"

text \<open>
  One of the remaining steps (lines 352 to 366): every rank sends the message in
  \<open>recv_buf\<close> on, receives the one its source holds into \<open>recv_buf2\<close>, decodes it into the
  slice of \<open>data_src = rank - step - 1\<close>, and swaps the two buffers.
\<close>

definition pe_allgather_step ::
  "('a, 'b) transforms \<Rightarrow> nat \<Rightarrow> ('a Mat \<times> 'b) list \<Rightarrow> ('a Mat \<times> 'b) list" where
  "pe_allgather_step T step st =
     (let nprocs = length st in
      map (\<lambda>rank.
             let src = (rank + nprocs - 1) mod nprocs;
                 recv_buf2 = snd (st ! src);
                 mat = fst (st ! rank);
                 data_src = (rank + nprocs - step - 1) mod nprocs;
                 recv_view = slice_range nprocs (Width mat) data_src
             in (update_view mat recv_view (recv_transform T recv_buf2 (view mat recv_view)),
                 recv_buf2))
        [0..<nprocs])"

definition pe_ring_allreduce :: "('a, 'b) transforms \<Rightarrow> 'a Mat list \<Rightarrow> 'a Mat list" where
  "pe_ring_allreduce T mats =
     (let nprocs = length mats;
          scattered = fold (pe_reduce_scatter_step T) [1..<nprocs] mats;
          first = pe_allgather_first T scattered;
          gathered = fold (pe_allgather_step T) [1..<nprocs - 1] first
      in map fst gathered)"

text \<open>
  \<open>intermodel_allreduce\<close>, lines 235 to 258, on all ranks. The number of models is the
  size of the inter-model communicator, here the length of the list. Every rank
  chooses the algorithm from its own matrix (\<open>chosen\<close>). When all ranks choose the same
  one, that collective runs on all of them. Ranks that choose differently do not
  enter one collective, and the call has no result then.
\<close>

definition intermodel_allreduce ::
  "('a, 'b) transforms \<Rightarrow> 'a Mat list \<Rightarrow> 'a Mat list option" where
  "intermodel_allreduce T mats =
     (let nprocs = int (length mats);
          chosen = map (\<lambda>mat. intermodel_allreduce_algorithm nprocs (Height mat) (Width mat))
                     mats
      in if list_all (\<lambda>a. a = RecursiveDoubling) chosen
         then recursive_doubling_allreduce_pow2 T mats
         else if list_all (\<lambda>a. a = PairwiseExchangeRing) chosen
         then Some (pe_ring_allreduce T mats)
         else None)"

text \<open>
  The shape of a matrix, and the sum \<open>M_0 + M_1 + ... + M_{P-1}\<close> of the matrices of the
  ranks, added from the left.
\<close>

definition mat_shape :: "nat \<Rightarrow> nat \<Rightarrow> 'a Mat \<Rightarrow> bool" where
  "mat_shape h w m =
     (Height m = h \<and> length (Buffer m) = w \<and> (\<forall>c \<in> set (Buffer m). length c = h))"

definition mat_sum :: "'a::comm_monoid_add Mat list \<Rightarrow> 'a Mat" where
  "mat_sum Ms = foldl mat_add (hd Ms) (tl Ms)"

text \<open>
  The columns of slice \<open>i\<close> are \<open>slice_lo..<slice_hi\<close>. The three predicates are the
  invariants of the loops: after \<open>s\<close> steps of the reduce-scatter, rank \<open>r\<close> holds in
  its own slice the sum over the ranks \<open>r, r - 1, ..., r - s\<close> and elsewhere its own
  data; after \<open>k\<close> steps of the allgather it holds the reduced slices of the ranks
  \<open>r, r - 1, ..., r - k\<close>, and its receive buffer holds the slice of rank \<open>r - k\<close>;
  after \<open>k\<close> rounds of recursive doubling it holds the sum over the ranks that agree
  with \<open>r\<close> above the lowest \<open>k\<close> bits.
\<close>

definition slice_lo :: "nat \<Rightarrow> nat \<Rightarrow> nat \<Rightarrow> nat" where
  "slice_lo nprocs width i = sum_list (take i (slice_lengths nprocs width))"

definition slice_hi :: "nat \<Rightarrow> nat \<Rightarrow> nat \<Rightarrow> nat" where
  "slice_hi nprocs width i = sum_list (take (Suc i) (slice_lengths nprocs width))"

definition rs_inv :: "nat \<Rightarrow> nat \<Rightarrow> 'a::comm_monoid_add Mat list \<Rightarrow> nat \<Rightarrow> 'a Mat list \<Rightarrow> bool" where
  "rs_inv h w Ms s mats =
     (length mats = length Ms \<and>
      (\<forall>r < length Ms. mat_shape h w (mats ! r) \<and>
         (\<forall>j < w. \<forall>i < h. Buffer (mats ! r) ! j ! i =
            (if slice_lo (length Ms) w r \<le> j \<and> j < slice_hi (length Ms) w r
             then sum (\<lambda>t. Buffer (Ms ! ((r + length Ms - t) mod length Ms)) ! j ! i) {..s}
             else Buffer (Ms ! r) ! j ! i))))"

definition ag_inv :: "nat \<Rightarrow> nat \<Rightarrow> 'a Mat \<Rightarrow> nat \<Rightarrow> nat \<Rightarrow> ('a Mat \<times> 'a Mat) list \<Rightarrow> bool" where
  "ag_inv h w R p k st =
     (length st = p \<and>
      (\<forall>r < p. mat_shape h w (fst (st ! r)) \<and>
         snd (st ! r) = view R (slice_range p w ((r + p - k) mod p)) \<and>
         (\<forall>t \<le> k. \<forall>j. slice_lo p w ((r + p - t) mod p) \<le> j
                      \<and> j < slice_hi p w ((r + p - t) mod p)
                    \<longrightarrow> Buffer (fst (st ! r)) ! j = Buffer R ! j)))"

definition rd_inv :: "nat \<Rightarrow> nat \<Rightarrow> 'a::comm_monoid_add Mat list \<Rightarrow> nat \<Rightarrow> 'a Mat list \<Rightarrow> bool" where
  "rd_inv h w Ms k mats =
     (length mats = length Ms \<and>
      (\<forall>r < length Ms. mat_shape h w (mats ! r) \<and>
         (\<forall>j < w. \<forall>i < h. Buffer (mats ! r) ! j ! i =
            sum (\<lambda>q. Buffer (Ms ! q) ! j ! i)
              {q. q < length Ms \<and> q div 2 ^ k = r div 2 ^ k})))"

section \<open>The data reader (src/data\_readers/data\_reader.cpp)\<close>

text \<open>
  The members of \<open>generic_data_reader\<close> that the functions below read or write.
  \<open>std::shuffle\<close> draws from the process-wide generator \<open>get_data_seq_generator()\<close>;
  the permutation one call applies is the parameter \<open>shuffle\<close> of the functions that
  call it. \<open>m_validation_percent\<close> and \<open>m_use_percent\<close> are \<open>double\<close>s with \<open>-1\<close> for
  "not set"; a finite \<open>double\<close> is modelled by the rational number it denotes.
\<close>

record generic_data_reader =
  m_batch_size :: int
  m_current_pos :: int
  m_first_n :: bool
  m_batch_stride :: int
  m_sample_stride :: int
  m_base_offset :: int
  m_model_offset :: int
  m_use_alt_last_mini_batch_size :: bool
  m_last_mini_batch_size :: int
  m_last_mini_batch_stride :: int
  m_current_mini_batch_idx :: int
  m_num_mini_batches_per_reader :: int
  m_num_iterations_per_epoch :: int
  m_shuffled_indices :: "int list"
  m_unused_indices :: "int list"
  m_indices_fetched_per_mb :: "int Mat"
  m_max_sample_count :: nat
  m_max_sample_count_was_set :: bool
  m_validation_percent :: rat
  m_use_percent :: rat

text \<open>\<open>Zeros(A, m, n)\<close> makes \<open>A\<close> the \<open>m\<close> by \<open>n\<close> zero matrix.\<close>

definition Zeros :: "nat \<Rightarrow> nat \<Rightarrow> int Mat" where
  "Zeros m n = \<lparr>Height = m, Buffer = replicate n (replicate m 0)\<rparr>"

text \<open>
  An \<open>int\<close> has 32 bits. \<open>int32\<close> gives the \<open>int\<close> that an addition or subtraction of
  \<open>int\<close>s leaves when its exact result is \<open>x\<close>: the result itself when it is in range
  (\<open>is_int32\<close>), and the two's complement wrap-around of the compiled code otherwise.
  \<open>size_t_to_int\<close> is the conversion \<open>(int) n\<close> of a \<open>size_t\<close>.
\<close>

definition is_int32 :: "int \<Rightarrow> bool" where
  "is_int32 i = (- (2 ^ 31) \<le> i \<and> i < 2 ^ 31)"

definition int32 :: "int \<Rightarrow> int" where
  "int32 x = (x + 2 ^ 31) mod 2 ^ 32 - 2 ^ 31"

definition size_t_to_int :: "nat \<Rightarrow> int" where
  "size_t_to_int n = (int n + 2 ^ 31) mod 2 ^ 32 - 2 ^ 31"

text \<open>\<open>update\<close>, lines 69 to 94. The result is the returned flag and the reader after the call.\<close>

definition update :: "(int list \<Rightarrow> int list) \<Rightarrow> generic_data_reader \<Rightarrow> bool \<times> generic_data_reader" where
  "update shuffle r =
     (let r1 = (if m_use_alt_last_mini_batch_size r \<and>
                   int32 (m_current_mini_batch_idx r + 1)
                     \<ge> int32 (m_num_mini_batches_per_reader r - 1)
                then r\<lparr>m_current_pos := int32 (m_current_pos r + m_last_mini_batch_stride r)\<rparr>
                else r\<lparr>m_current_pos := int32 (m_current_pos r + m_batch_stride r)\<rparr>);
          r2 = r1\<lparr>m_indices_fetched_per_mb := Zeros (Width (m_indices_fetched_per_mb r1)) 1\<rparr>
      in if m_current_pos r2 < size_t_to_int (length (m_shuffled_indices r2))
         then (True, r2\<lparr>m_current_mini_batch_idx := int32 (m_current_mini_batch_idx r2 + 1)\<rparr>)
         else
           let r3 = (if \<not> m_first_n r2
                     then r2\<lparr>m_shuffled_indices := shuffle (m_shuffled_indices r2)\<rparr>
                     else r2);
               r4 = r3\<lparr>m_current_mini_batch_idx := 0\<rparr>;
               r5 = r4\<lparr>m_current_pos := int32 (m_base_offset r4 + m_model_offset r4)\<rparr>
           in (False, r5))"

text \<open>
  \<open>getm_batch_size\<close>, lines 96 to 103. The result is the returned number and the reader
  after the call; the member function is \<open>const\<close> and writes no member.
\<close>

definition getm_batch_size :: "generic_data_reader \<Rightarrow> int \<times> generic_data_reader" where
  "getm_batch_size r =
     (if m_use_alt_last_mini_batch_size r \<and>
         m_current_mini_batch_idx r \<ge> m_num_mini_batches_per_reader r - 1
      then (m_last_mini_batch_size r, r)
      else (m_batch_size r, r))"

text \<open>The accessors of lines 301 to 361.\<close>

definition get_max_sample_count :: "generic_data_reader \<Rightarrow> nat" where
  "get_max_sample_count r = m_max_sample_count r"

definition has_max_sample_count :: "generic_data_reader \<Rightarrow> bool" where
  "has_max_sample_count r = m_max_sample_count_was_set r"

definition get_firstN :: "generic_data_reader \<Rightarrow> bool" where
  "get_firstN r = m_first_n r"

definition has_validation_percent :: "generic_data_reader \<Rightarrow> bool" where
  "has_validation_percent r = (if m_validation_percent r = -1 then False else True)"

definition get_validation_percent :: "generic_data_reader \<Rightarrow> rat" where
  "get_validation_percent r = m_validation_percent r"

definition has_use_percent :: "generic_data_reader \<Rightarrow> bool" where
  "has_use_percent r = (if m_use_percent r = -1 then False else True)"

definition get_use_percent :: "generic_data_reader \<Rightarrow> error + rat" where
  "get_use_percent r =
     (if \<not> has_use_percent r then Inl MissingConfiguration else Inr (m_use_percent r))"

text \<open>
  Modelled from the spec: \<open>getNumData()\<close> is defined in the reader's header, which is not
  among the sources. It is the data count \<open>N\<close> of the spec; the comment at line 139 of
  the source says that it is \<open>m_shuffled_indices.size()\<close>.
\<close>

definition getNumData :: "generic_data_reader \<Rightarrow> int" where
  "getNumData r = int (length (m_shuffled_indices r))"

text \<open>\<open>std::vector::resize\<close>: cut, or fill with zeros.\<close>

definition resize :: "nat \<Rightarrow> int list \<Rightarrow> int list" where
  "resize n xs = take n xs @ replicate (n - length xs) 0"

text \<open>
  Arithmetic on \<open>double\<close>s (IEEE 754 binary64, round to nearest, ties to even). A
  finite \<open>double\<close> is \<open>m * 2^q\<close> with an integer \<open>m\<close> of at most 53 bits and \<open>q \<ge> -1074\<close>.
  \<open>round_to_even\<close> is the nearest integer, the even one at a tie. \<open>bit_length a\<close> is the
  number of binary digits of \<open>a > 0\<close>, and \<open>ilog2 x\<close> the exponent \<open>e\<close> with
  \<open>2^e \<le> x < 2^(e+1)\<close> for \<open>x > 0\<close>. \<open>double_round x\<close> is the \<open>double\<close> nearest to \<open>x\<close>: \<open>x\<close>
  rounded to a multiple of \<open>2^(e-52)\<close>, or of \<open>2^(-1074)\<close> for a subnormal result.
  Overflow to infinity and NaN are left out: the products below are those of a
  percentage between 0 and 1 and a count. In \<open>d * n\<close> with an \<open>int n\<close>, the \<open>int\<close> is
  converted to \<open>double\<close> and the exact product is rounded.
\<close>

definition round_to_even :: "rat \<Rightarrow> int" where
  "round_to_even x =
     (let f = \<lfloor>x\<rfloor>; d = x - of_int f
      in if d < 1 / 2 then f else if 1 / 2 < d then f + 1 else if even f then f else f + 1)"

fun bit_length :: "int \<Rightarrow> nat" where
  "bit_length a = (if a \<le> 0 then 0 else Suc (bit_length (a div 2)))"

declare bit_length.simps [simp del]

definition ilog2 :: "rat \<Rightarrow> int" where
  "ilog2 x =
     (let (a, b) = quotient_of x;
          k = int (bit_length a) - int (bit_length b)
      in if 2 powi k \<le> x then k else k - 1)"

definition double_round :: "rat \<Rightarrow> rat" where
  "double_round x =
     (if x = 0 then 0
      else let u = 2 powi (max (ilog2 \<bar>x\<bar> - 52) (- 1074))
           in of_int (round_to_even (x / u)) * u)"

definition int_to_double :: "int \<Rightarrow> rat" where
  "int_to_double n = double_round (of_int n)"

definition double_times_int :: "rat \<Rightarrow> int \<Rightarrow> rat" where
  "double_times_int d n = double_round (d * int_to_double n)"

text \<open>The conversion of a \<open>double\<close> to \<open>size_t\<close> or \<open>long\<close> drops the fraction.\<close>

definition truncate_to_long :: "rat \<Rightarrow> int" where
  "truncate_to_long x = (if x < 0 then - \<lfloor>- x\<rfloor> else \<lfloor>x\<rfloor>)"

text \<open>
  \<open>select_subset_of_data\<close>, lines 115 to 151, in four steps: the shuffle and the early
  return (lines 116 to 122), the truncation (124 to 136), the validation split (138 to
  145) and the sort (147 to 150).
\<close>

definition select_truncate :: "generic_data_reader \<Rightarrow> error + generic_data_reader" where
  "select_truncate r =
     (if has_max_sample_count r then
        (let count = get_max_sample_count r in
         if int count > getNumData r then Inl SubsetTooLarge
         else Inr (r\<lparr>m_shuffled_indices :=
                        resize (get_max_sample_count r) (m_shuffled_indices r)\<rparr>))
      else if has_use_percent r then
        (case get_use_percent r of
           Inl e \<Rightarrow> Inl e
         | Inr p \<Rightarrow> Inr (r\<lparr>m_shuffled_indices :=
                         resize (nat (truncate_to_long (double_times_int p (getNumData r))))
                           (m_shuffled_indices r)\<rparr>))
      else Inr r)"

definition select_validation :: "generic_data_reader \<Rightarrow> generic_data_reader" where
  "select_validation r =
     (if has_validation_percent r then
        (let unused = truncate_to_long
                        (double_times_int (get_validation_percent r) (getNumData r));
             use_me = getNumData r - unused
         in if unused > 0
            then (let r1 = r\<lparr>m_unused_indices := drop (nat use_me) (m_shuffled_indices r)\<rparr>
                  in r1\<lparr>m_shuffled_indices := resize (nat use_me) (m_shuffled_indices r1)\<rparr>)
            else r)
      else r)"

definition select_sort :: "generic_data_reader \<Rightarrow> generic_data_reader" where
  "select_sort r =
     (if \<not> get_firstN r
      then (let r1 = r\<lparr>m_shuffled_indices := sort (m_shuffled_indices r)\<rparr>
            in r1\<lparr>m_unused_indices := sort (m_unused_indices r1)\<rparr>)
      else r)"

definition select_subset_of_data ::
  "(int list \<Rightarrow> int list) \<Rightarrow> generic_data_reader \<Rightarrow> error + generic_data_reader" where
  "select_subset_of_data shuffle r =
     (let r1 = (if \<not> get_firstN r
                then r\<lparr>m_shuffled_indices := shuffle (m_shuffled_indices r)\<rparr>
                else r)
      in if \<not> (has_max_sample_count r1 \<or> has_use_percent r1 \<or> has_validation_percent r1)
         then Inr r1
         else (case select_truncate r1 of
                 Inl e \<Rightarrow> Inl e
               | Inr r2 \<Rightarrow> Inr (select_sort (select_validation r2))))"

text \<open>
  The vectors \<open>select_subset_of_data\<close> goes through, written with list operations:
  the indices after the optional shuffle, after the truncation, and the number of
  indices the validation split moves to the unused vector; "\<open>use_percent\<close> times the
  data count" is the \<open>double\<close> product with its fraction dropped. \<open>percent_ok\<close> is the range
  the setters \<open>set_use_percent\<close> and \<open>set_validation_percent\<close> enforce (lines 317 to
  344), or the initial "not set".
\<close>

definition subset_s0 :: "(int list \<Rightarrow> int list) \<Rightarrow> generic_data_reader \<Rightarrow> int list" where
  "subset_s0 shuffle r =
     (if m_first_n r then m_shuffled_indices r else shuffle (m_shuffled_indices r))"

definition subset_s1 :: "(int list \<Rightarrow> int list) \<Rightarrow> generic_data_reader \<Rightarrow> int list" where
  "subset_s1 shuffle r =
     (if m_max_sample_count_was_set r then take (m_max_sample_count r) (subset_s0 shuffle r)
      else if m_use_percent r \<noteq> -1
      then take (nat \<lfloor>double_times_int (m_use_percent r)
                          (int (length (subset_s0 shuffle r)))\<rfloor>)
             (subset_s0 shuffle r)
      else subset_s0 shuffle r)"

definition subset_unused_count :: "(int list \<Rightarrow> int list) \<Rightarrow> generic_data_reader \<Rightarrow> nat" where
  "subset_unused_count shuffle r =
     (if m_validation_percent r \<noteq> -1
      then nat \<lfloor>double_times_int (m_validation_percent r)
                      (int (length (subset_s1 shuffle r)))\<rfloor>
      else 0)"

definition percent_ok :: "rat \<Rightarrow> bool" where
  "percent_ok p = (p = -1 \<or> (0 \<le> p \<and> p \<le> 1))"

subsection \<open>Checkpoint of the shuffling state\<close>

text \<open>
  Modelled from the spec: the class \<open>persist\<close> is not among the sources. The spec treats
  it as a typed key-value writer with a \<open>train\<close> namespace: a \<open>uint64\<close> or a contiguous
  \<open>int32\<close> array is stored under a field name, and a read returns what was written under
  that name. A read of a name that holds no value of the requested type, or fewer
  array elements than requested, fails. \<open>get_rank\<close> is the rank of the calling process.
\<close>

datatype persist_value = U64 nat | I32_contig "int list"

record persist =
  get_rank :: nat
  train :: "string \<rightharpoonup> persist_value"

definition write_uint64 :: "persist \<Rightarrow> string \<Rightarrow> nat \<Rightarrow> persist" where
  "write_uint64 p fieldname val = p\<lparr>train := (train p)(fieldname \<mapsto> U64 val)\<rparr>"

definition read_uint64 :: "persist \<Rightarrow> string \<Rightarrow> nat option" where
  "read_uint64 p fieldname =
     (case train p fieldname of Some (U64 val) \<Rightarrow> Some val | _ \<Rightarrow> None)"

definition write_int32_contig :: "persist \<Rightarrow> string \<Rightarrow> int list \<Rightarrow> nat \<Rightarrow> persist" where
  "write_int32_contig p fieldname buf count =
     p\<lparr>train := (train p)(fieldname \<mapsto> I32_contig (take count buf))\<rparr>"

definition read_int32_contig :: "persist \<Rightarrow> string \<Rightarrow> nat \<Rightarrow> int list option" where
  "read_int32_contig p fieldname count =
     (case train p fieldname of
        Some (I32_contig vals) \<Rightarrow> if count \<le> length vals then Some (take count vals) else None
      | _ \<Rightarrow> None)"

text \<open>
  The integer conversions of the two functions, with the wrap-around written out:
  \<open>(uint64_t) i\<close> of an \<open>int\<close> and \<open>(int) v\<close> of a \<open>uint64_t\<close>; the initialisation of an
  \<open>int\<close> from a \<open>size_t\<close> is \<open>size_t_to_int\<close> above.
\<close>

definition int_to_uint64 :: "int \<Rightarrow> nat" where
  "int_to_uint64 i = nat (i mod 2 ^ 64)"

definition uint64_to_int :: "nat \<Rightarrow> int" where
  "uint64_to_int v = (int v + 2 ^ 31) mod 2 ^ 32 - 2 ^ 31"

text \<open>\<open>snprintf(fieldname, sizeof(fieldname), "%s<suffix>", name)\<close> with \<open>char fieldname[1024]\<close>.\<close>

definition snprintf_fieldname :: "string \<Rightarrow> string \<Rightarrow> string" where
  "snprintf_fieldname name suffix = take 1023 (name @ suffix)"

text \<open>\<open>saveToCheckpointShared\<close>, lines 179 to 206, on one process.\<close>

definition saveToCheckpointShared ::
  "persist \<Rightarrow> string \<Rightarrow> generic_data_reader \<Rightarrow> bool \<times> persist" where
  "saveToCheckpointShared p name r =
     (if get_rank p = 0 then
        (let p1 = write_uint64 p (snprintf_fieldname name ''_current_mini_batch_idx'')
                    (int_to_uint64 (m_current_mini_batch_idx r));
             size_int = size_t_to_int (length (m_shuffled_indices r));
             p2 = write_uint64 p1 (snprintf_fieldname name ''_data_size'')
                    (int_to_uint64 size_int);
             p3 = write_uint64 p2 (snprintf_fieldname name ''_data_position'')
                    (int_to_uint64 (m_current_pos r));
             p4 = write_int32_contig p3 (snprintf_fieldname name ''_data_indices'')
                    (m_shuffled_indices r) (int_to_uint64 size_int)
         in (True, p4))
      else (True, p))"

text \<open>
  Every process of the world calls the function on the shared checkpoint; process
  \<open>rank\<close> holds the \<open>rank\<close>-th reader of the list.
\<close>

fun save_world :: "persist \<Rightarrow> string \<Rightarrow> nat \<Rightarrow> generic_data_reader list \<Rightarrow> persist" where
  "save_world p name rank [] = p"
| "save_world p name rank (r # rs) =
     save_world (snd (saveToCheckpointShared (p\<lparr>get_rank := rank\<rparr>) name r)) name (Suc rank) rs"

text \<open>
  \<open>loadFromCheckpointShared\<close>, lines 209 to 258. First the part that only rank 0 runs
  (lines 211 to 236); a failed read ends the call.
\<close>

definition load_rank0 :: "persist \<Rightarrow> string \<Rightarrow> generic_data_reader \<Rightarrow> generic_data_reader option" where
  "load_rank0 p name r =
     (case read_uint64 p (snprintf_fieldname name ''_current_mini_batch_idx'') of
        None \<Rightarrow> None
      | Some val1 \<Rightarrow>
          let r1 = r\<lparr>m_current_mini_batch_idx := uint64_to_int val1\<rparr> in
          (case read_uint64 p (snprintf_fieldname name ''_data_size'') of
             None \<Rightarrow> None
           | Some val2 \<Rightarrow>
               let size_int = uint64_to_int val2 in
               (case read_uint64 p (snprintf_fieldname name ''_data_position'') of
                  None \<Rightarrow> None
                | Some val3 \<Rightarrow>
                    let r2 = r1\<lparr>m_current_pos := uint64_to_int val3\<rparr>;
                        r3 = r2\<lparr>m_shuffled_indices :=
                                  resize (int_to_uint64 size_int) (m_shuffled_indices r2)\<rparr>
                    in (case read_int32_contig p (snprintf_fieldname name ''_data_indices'')
                               (int_to_uint64 size_int) of
                          None \<Rightarrow> None
                        | Some vals \<Rightarrow>
                            Some (r3\<lparr>m_shuffled_indices :=
                                      vals @ drop (length vals) (m_shuffled_indices r3)\<rparr>)))))"

text \<open>
  \<open>MPI_Bcast(buf, count, type, root, MPI_COMM_WORLD)\<close> over the processes of the world:
  every process ends with the root's value in the place \<open>buf\<close> names.
\<close>

definition MPI_Bcast :: "('s \<Rightarrow> 'v) \<Rightarrow> ('v \<Rightarrow> 's \<Rightarrow> 's) \<Rightarrow> nat \<Rightarrow> 's list \<Rightarrow> 's list" where
  "MPI_Bcast get put root_rank world = map (put (get (world ! root_rank))) world"

text \<open>
  The whole call on the processes of the world (the list is never empty: it holds rank
  0). Lines 246 to 252 give every process the local \<open>size\<close>; a process other than rank 0
  resizes its vector to it before the array is broadcast.
\<close>

fun resize_nonroot :: "int \<Rightarrow> nat \<Rightarrow> generic_data_reader list \<Rightarrow> generic_data_reader list" where
  "resize_nonroot size_int rank [] = []"
| "resize_nonroot size_int rank (r # rs) =
     (if rank \<noteq> 0
      then r\<lparr>m_shuffled_indices := resize (int_to_uint64 size_int) (m_shuffled_indices r)\<rparr>
      else r) # resize_nonroot size_int (Suc rank) rs"

definition loadFromCheckpointShared ::
  "persist \<Rightarrow> string \<Rightarrow> generic_data_reader list \<Rightarrow> (bool \<times> generic_data_reader list) option" where
  "loadFromCheckpointShared p name world =
     (case world of
        [] \<Rightarrow> None
      | r0 # rest \<Rightarrow>
          (case load_rank0 (p\<lparr>get_rank := 0\<rparr>) name r0 of
             None \<Rightarrow> None
           | Some r0' \<Rightarrow>
               let w1 = r0' # rest;
                   w2 = MPI_Bcast m_current_mini_batch_idx
                          (\<lambda>v r. r\<lparr>m_current_mini_batch_idx := v\<rparr>) 0 w1;
                   w3 = MPI_Bcast m_current_pos (\<lambda>v r. r\<lparr>m_current_pos := v\<rparr>) 0 w2;
                   size_int = size_t_to_int (length (m_shuffled_indices (w3 ! 0)));
                   w4 = resize_nonroot size_int 0 w3;
                   w5 = MPI_Bcast (\<lambda>r. take (nat size_int) (m_shuffled_indices r))
                          (\<lambda>vals r. r\<lparr>m_shuffled_indices :=
                                         vals @ drop (length vals) (m_shuffled_indices r)\<rparr>)
                          0 w4
               in Some (True, w5)))"

section \<open>Concrete states\<close>

text \<open>A communicator as the constructor builds it for 4 processes, 2 per model, on rank 0.\<close>

definition comm_example :: lbann_comm where
  "comm_example =
     \<lparr>procs_per_model = 2, num_models = 2, model_rank = 0, rank_in_model = 0,
      num_model_barriers = 0, num_intermodel_barriers = 0, num_global_barriers = 0,
      bytes_sent = 0, bytes_received = 0\<rparr>"

text \<open>A 2 by 2 matrix, with the columns \<open>1, 2\<close> and \<open>3, 4\<close>.\<close>

definition mat_example :: "int Mat" where
  "mat_example = \<lparr>Height = 2, Buffer = [[1, 2], [3, 4]]\<rparr>"

text \<open>
  The matrices of four ranks, 1 by 1 with the entries \<open>1, 2, 3, 4\<close>; of three ranks, 1 by
  7 with the entries \<open>1, 2, 3\<close>; and of two ranks, 65 by 1.
\<close>

definition mats_4 :: "int Mat list" where
  "mats_4 = map (\<lambda>v. \<lparr>Height = 1, Buffer = [[v]]\<rparr>) [1, 2, 3, 4]"

definition mats_3 :: "int Mat list" where
  "mats_3 = map (\<lambda>v. \<lparr>Height = 1, Buffer = replicate 7 [v]\<rparr>) [1, 2, 3]"

definition mats_tall :: "int Mat list" where
  "mats_tall = map (\<lambda>v. \<lparr>Height = 65, Buffer = [replicate 65 v]\<rparr>) [1, 2]"

text \<open>
  A reader over the samples \<open>1, 2, 3\<close> as \<open>setup(1, 10, 1, 0)\<close> leaves it when the indices
  are taken in order (\<open>first_n\<close>): base offset 1, batch stride 10, position 1.
\<close>

definition reader_example :: generic_data_reader where
  "reader_example =
     \<lparr>m_batch_size = 10, m_current_pos = 1, m_first_n = True, m_batch_stride = 10,
      m_sample_stride = 1, m_base_offset = 1, m_model_offset = 0,
      m_use_alt_last_mini_batch_size = False, m_last_mini_batch_size = 3,
      m_last_mini_batch_stride = 10, m_current_mini_batch_idx = 0,
      m_num_mini_batches_per_reader = 1, m_num_iterations_per_epoch = 1,
      m_shuffled_indices = [1, 2, 3], m_unused_indices = [],
      m_indices_fetched_per_mb = Zeros 10 1, m_max_sample_count = 0,
      m_max_sample_count_was_set = False, m_validation_percent = -1,
      m_use_percent = -1\<rparr>"

text \<open>
  A reader over 100 samples with \<open>use_percent = 0.5\<close> and \<open>validation_percent = 0.2\<close>
  (the \<open>double\<close> nearest to \<open>0.2\<close> is \<open>3602879701896397 / 2^54\<close>), and one over 23 samples
  in the distributed mode with three minibatches per reader.
\<close>

definition reader_100 :: generic_data_reader where
  "reader_100 =
     reader_example\<lparr>m_first_n := False, m_current_pos := 0, m_base_offset := 0,
       m_shuffled_indices := map int [0..<100],
       m_validation_percent := 3602879701896397 / 18014398509481984,
       m_use_percent := 1 / 2\<rparr>"

definition reader_23 :: generic_data_reader where
  "reader_23 =
     reader_example\<lparr>m_current_pos := 0, m_base_offset := 0,
       m_shuffled_indices := map int [0..<23],
       m_use_alt_last_mini_batch_size := True,
       m_num_mini_batches_per_reader := 3\<rparr>"

text \<open>An empty checkpoint.\<close>

definition persist_empty :: persist where
  "persist_empty = \<lparr>get_rank = 0, train = Map.empty\<rparr>"

section \<open>Topology validation\<close>

lemma smod_eq_0_iff_dvd:
  fixes a b :: int
  shows "a smod b = 0 \<longleftrightarrow> (a = 0 \<or> b dvd a)"
proof (cases "a = 0")
  case True
  then show ?thesis by simp
next
  case False
  then have "sgn a \<noteq> 0" by (simp add: sgn_if)
  then have "a smod b = 0 \<longleftrightarrow> \<bar>a\<bar> mod \<bar>b\<bar> = 0"
    by (simp add: signed_modulo_int_def)
  also have "\<dots> \<longleftrightarrow> \<bar>b\<bar> dvd \<bar>a\<bar>" by (simp add: dvd_eq_mod_eq_0)
  also have "\<dots> \<longleftrightarrow> b dvd a" by simp
  finally show ?thesis using False by simp
qed

lemma init_ok_num_models:
  assumes "lbann_comm_init world_size world_rank ppm = Inr c" and "0 < world_size"
  shows "num_models c \<noteq> 0"
proof -
  define p where "p = init_procs_per_model world_size ppm"
  from assms(1) have p0: "p \<noteq> 0" and ple: "p \<le> world_size"
    and pm: "world_size smod p = 0" and nm: "num_models c = world_size sdiv p"
    by (auto simp: lbann_comm_init_def Let_def p_def split: if_splits)
  have "\<bar>p\<bar> \<le> \<bar>world_size\<bar>"
  proof -
    from pm assms(2) have "p dvd world_size" by (simp add: smod_eq_0_iff_dvd)
    then show ?thesis using assms(2) by (intro dvd_imp_le_int) auto
  qed
  then have "0 < \<bar>world_size\<bar> div \<bar>p\<bar>" using p0
    by (simp add: pos_imp_zdiv_pos_iff)
  then show ?thesis using nm p0 assms(2)
    by (simp add: signed_divide_int_def sgn_if)
qed

text \<open>
  Claim C6. For a world of at least one process and every constructor argument: when the
  member \<open>procs_per_model\<close> (the argument, or the world size if the argument is \<open>0\<close>)
  exceeds the world size or does not divide it, the constructor throws (error
  \<open>InvalidTopology\<close>). For a non-zero argument the member is the argument itself. In
  particular a world of 6 processes with 4 processes per model is rejected, on every
  rank.
\<close>

theorem constructor_rejects_invalid_topology:
  assumes "0 < world_size"
  shows "(init_procs_per_model world_size ppm > world_size \<or>
          \<not> init_procs_per_model world_size ppm dvd world_size
          \<longrightarrow> lbann_comm_init world_size world_rank ppm = Inl InvalidTopology)
       \<and> (ppm \<noteq> 0 \<longrightarrow> init_procs_per_model world_size ppm = ppm)
       \<and> lbann_comm_init 6 world_rank 4 = Inl InvalidTopology"
proof (intro conjI impI)
  define p where "p = init_procs_per_model world_size ppm"
  assume bad: "init_procs_per_model world_size ppm > world_size \<or>
          \<not> init_procs_per_model world_size ppm dvd world_size"
  have p0: "p \<noteq> 0" using assms by (auto simp: p_def init_procs_per_model_def)
  have "p > world_size \<or> world_size smod p \<noteq> 0"
    using bad assms by (auto simp: p_def smod_eq_0_iff_dvd)
  then show "lbann_comm_init world_size world_rank ppm = Inl InvalidTopology"
    using p0 unfolding lbann_comm_init_def Let_def p_def [symmetric] by auto
next
  assume "ppm \<noteq> 0"
  then show "init_procs_per_model world_size ppm = ppm"
    by (simp add: init_procs_per_model_def)
next
  show "lbann_comm_init 6 world_rank 4 = Inl InvalidTopology"
    by (simp add: lbann_comm_init_def init_procs_per_model_def signed_modulo_int_def)
qed

theorem constructor_rejects_invalid_topology_witness:
  "lbann_comm_init 8 0 3 = Inl InvalidTopology \<and> lbann_comm_init 4 0 8 = Inl InvalidTopology"
  using constructor_rejects_invalid_topology [of 8 3 0]
    constructor_rejects_invalid_topology [of 4 8 0]
  by (simp add: init_procs_per_model_def)

text \<open>
  Claim C10. With argument \<open>0\<close> the constructor does not throw on any rank of a non-empty
  world: the member \<open>procs_per_model\<close> becomes the world size before the validation, the
  result is one model over the whole world (\<open>num_models = 1\<close>, \<open>model_rank = 0\<close>), and
  the rank within the model is the world rank.
\<close>

theorem constructor_zero_procs_per_model:
  assumes "0 < world_size" and "0 \<le> world_rank" and "world_rank < world_size"
  shows "\<exists>c. lbann_comm_init world_size world_rank 0 = Inr c
           \<and> procs_per_model c = world_size \<and> num_models c = 1
           \<and> model_rank c = 0 \<and> rank_in_model c = world_rank"
  using assms
  by (simp add: lbann_comm_init_def init_procs_per_model_def signed_divide_int_def
      signed_modulo_int_def sgn_if)

theorem constructor_zero_procs_per_model_witness:
  "\<exists>c. lbann_comm_init 6 5 0 = Inr c
           \<and> procs_per_model c = 6 \<and> num_models c = 1
           \<and> model_rank c = 0 \<and> rank_in_model c = 5"
  using constructor_zero_procs_per_model [of 6 5] by simp

section \<open>Dispatch of the allreduce\<close>

lemma and_pred_nat: "0 < (n::nat) \<Longrightarrow> (n AND (n - 1) = 0) = (\<exists>k. n = 2 ^ k)"
proof (induction n rule: less_induct)
  case (less n)
  show ?case
  proof (cases "even n")
    case True
    then obtain m where m: "n = 2 * m" by auto
    with less.prems have mpos: "0 < m" by simp
    have pred: "n - 1 = 2 * (m - 1) + 1" using m mpos by simp
    have step: "n AND (n - 1) = 2 * (m AND (m - 1))"
      unfolding pred unfolding m by (simp add: and_rec[of "2*m"])
    have IH: "(m AND (m - 1) = 0) = (\<exists>k. m = 2 ^ k)"
      using less.IH[of m] m mpos by simp
    have "(\<exists>k. n = 2 ^ k) = (\<exists>k. m = 2 ^ k)"
    proof
      assume "\<exists>k. n = 2 ^ k"
      then obtain k where k: "n = 2 ^ k" by blast
      with True have "k \<noteq> 0" by (cases k) auto
      then obtain j where "k = Suc j" by (cases k) auto
      with k m have "m = 2 ^ j" by simp
      then show "\<exists>k. m = 2 ^ k" by blast
    next
      assume "\<exists>k. m = 2 ^ k"
      then obtain k where "m = 2 ^ k" by blast
      with m have "n = 2 ^ Suc k" by simp
      then show "\<exists>k. n = 2 ^ k" by blast
    qed
    with step IH show ?thesis by simp
  next
    case False
    then obtain m where m: "n = 2 * m + 1" by (auto elim: oddE)
    have "(2 * m + 1) AND (2 * m) = 2 * m"
      by (subst and_rec) simp
    then have "n AND (n - 1) = 2 * m"
      unfolding m by simp
    moreover have "(\<exists>k. n = 2 ^ k) = (m = 0)"
    proof
      assume "\<exists>k. n = 2 ^ k"
      then obtain k where k: "n = 2 ^ k" by blast
      with False have "k = 0" by (cases k) auto
      with k m show "m = 0" by simp
    next
      assume "m = 0"
      with m have "n = 2 ^ 0" by simp
      then show "\<exists>k. n = 2 ^ k" by blast
    qed
    ultimately show ?thesis by simp
  qed
qed

lemma and_pred_int:
  fixes n :: int
  assumes "n \<noteq> 0"
  shows "(n AND (n - 1) = 0) = (\<exists>k::nat. n = 2 ^ k)"
proof (cases "0 < n")
  case True
  define m where "m = nat n"
  have n: "n = int m" and mpos: "0 < m" using True by (simp_all add: m_def)
  have n1: "n - 1 = int (m - 1)" using n mpos by simp
  have "n AND (n - 1) = int (m AND (m - 1))"
    unfolding n1 unfolding n by (rule of_nat_and_eq [symmetric])
  then have "(n AND (n - 1) = 0) = (m AND (m - 1) = 0)" by simp
  also have "\<dots> = (\<exists>k. m = 2 ^ k)" using mpos by (rule and_pred_nat)
  also have "\<dots> = (\<exists>k::nat. n = 2 ^ k)"
  proof
    assume "\<exists>k. m = 2 ^ k"
    then obtain k where "m = 2 ^ k" by blast
    then have "n = 2 ^ k" using n by simp
    then show "\<exists>k::nat. n = 2 ^ k" by blast
  next
    assume "\<exists>k::nat. n = 2 ^ k"
    then obtain k :: nat where "n = 2 ^ k" by blast
    then have "int m = int (2 ^ k)" using n by simp
    then have "m = 2 ^ k" by (simp only: of_nat_eq_iff)
    then show "\<exists>k. m = 2 ^ k" by blast
  qed
  finally show ?thesis .
next
  case False
  with assms have neg: "n < 0" by simp
  then have "n AND (n - 1) < 0" by (simp add: and_negative_int_iff)
  then have "n AND (n - 1) \<noteq> 0" by linarith
  moreover have "\<not> (\<exists>k::nat. n = 2 ^ k)"
  proof
    assume "\<exists>k::nat. n = 2 ^ k"
    then obtain k :: nat where "n = 2 ^ k" by blast
    then have "0 < n" by simp
    with neg show False by simp
  qed
  ultimately show ?thesis by simp
qed

text \<open>
  When the matrices of all ranks have one height and one width, every rank takes the
  same branch of \<open>intermodel_allreduce\<close>, and the call is the collective of that branch.
\<close>

lemma intermodel_allreduce_uniform:
  assumes ne: "mats \<noteq> []" and hw: "\<forall>m \<in> set mats. Height m = h \<and> Width m = w"
  shows "intermodel_allreduce T mats =
           (case intermodel_allreduce_algorithm (int (length mats)) h w of
              RecursiveDoubling \<Rightarrow> recursive_doubling_allreduce_pow2 T mats
            | PairwiseExchangeRing \<Rightarrow> Some (pe_ring_allreduce T mats))"
proof -
  define a where "a = intermodel_allreduce_algorithm (int (length mats)) h w"
  have "map (\<lambda>mat. intermodel_allreduce_algorithm (int (length mats)) (Height mat) (Width mat))
          mats = map (\<lambda>mat. a) mats"
    using hw by (intro map_cong) (simp_all add: a_def)
  then have ch: "map (\<lambda>mat. intermodel_allreduce_algorithm (int (length mats)) (Height mat)
                        (Width mat)) mats = replicate (length mats) a"
    by (simp add: map_replicate_const)
  have all: "list_all P (replicate (length mats) a) = P a" for P
    using ne by (auto simp: list_all_iff)
  show ?thesis
    unfolding intermodel_allreduce_def Let_def ch all a_def [symmetric]
    by (cases a) simp_all
qed

text \<open>
  Claim C2. On every rank, \<open>intermodel_allreduce\<close> chooses recursive doubling exactly
  when the number of models is a power of two and the matrix of the rank has height at
  most 64 and width at most 64, and the pairwise-exchange ring in every other case.
  For matrices of one height \<open>h\<close> and one width \<open>w\<close> on all ranks and any transforms,
  the call is then the call of \<open>recursive_doubling_allreduce_pow2\<close> if the number of
  models is a power of two, \<open>h \<le> 64\<close> and \<open>w \<le> 64\<close>, and the call of \<open>pe_ring_allreduce\<close>
  otherwise. The number of models is an \<open>int\<close>, so it is below \<open>2^31\<close>.
\<close>

theorem intermodel_allreduce_dispatch:
  assumes "mats \<noteq> []" and "length mats < 2 ^ 31"
    and "\<forall>m \<in> set mats. Height m = h \<and> Width m = w"
  shows "intermodel_allreduce T mats =
           (if (\<exists>k. length mats = 2 ^ k) \<and> h \<le> 64 \<and> w \<le> 64
            then recursive_doubling_allreduce_pow2 T mats
            else Some (pe_ring_allreduce T mats))
       \<and> (\<forall>m \<in> set mats.
            intermodel_allreduce_algorithm (int (length mats)) (Height m) (Width m) =
              (if (\<exists>k. length mats = 2 ^ k) \<and> Height m \<le> 64 \<and> Width m \<le> 64
               then RecursiveDoubling else PairwiseExchangeRing))"
proof -
  have "int (length mats) \<noteq> 0" using assms(1) by simp
  from and_pred_int [OF this]
  have "(int (length mats) AND (int (length mats) - 1) = 0) = (\<exists>k::nat. int (length mats) = 2 ^ k)" .
  also have "\<dots> = (\<exists>k. length mats = 2 ^ k)"
  proof -
    have "(int (length mats) = 2 ^ k) = (length mats = 2 ^ k)" for k
    proof -
      have "(int (length mats) = 2 ^ k) = (int (length mats) = int (2 ^ k))" by simp
      also have "\<dots> = (length mats = 2 ^ k)" by (simp only: of_nat_eq_iff)
      finally show ?thesis .
    qed
    then show ?thesis by simp
  qed
  finally have pw: "(int (length mats) AND (int (length mats) - 1) = 0)
                      = (\<exists>k. length mats = 2 ^ k)" .
  have alg: "intermodel_allreduce_algorithm (int (length mats)) h' w' =
              (if (\<exists>k. length mats = 2 ^ k) \<and> h' \<le> 64 \<and> w' \<le> 64
               then RecursiveDoubling else PairwiseExchangeRing)" for h' w'
    by (simp add: intermodel_allreduce_algorithm_def pw)
  show ?thesis
    unfolding intermodel_allreduce_uniform [OF assms(1,3)] alg by auto
qed

theorem intermodel_allreduce_dispatch_witness:
  "intermodel_allreduce sum_transforms mats_4
     = recursive_doubling_allreduce_pow2 sum_transforms mats_4
   \<and> intermodel_allreduce sum_transforms mats_3 = Some (pe_ring_allreduce sum_transforms mats_3)
   \<and> intermodel_allreduce sum_transforms mats_tall
       = Some (pe_ring_allreduce sum_transforms mats_tall)"
proof -
  have a: "mats_4 \<noteq> []" "length mats_4 < 2 ^ 31"
    "\<forall>m \<in> set mats_4. Height m = 1 \<and> Width m = 1"
    by (simp_all add: mats_4_def Width_def)
  have b: "mats_3 \<noteq> []" "length mats_3 < 2 ^ 31"
    "\<forall>m \<in> set mats_3. Height m = 1 \<and> Width m = 7"
    by (simp_all add: mats_3_def Width_def)
  have c: "mats_tall \<noteq> []" "length mats_tall < 2 ^ 31"
    "\<forall>m \<in> set mats_tall. Height m = 65 \<and> Width m = 1"
    by (simp_all add: mats_tall_def Width_def)
  have p4: "\<exists>k. length mats_4 = 2 ^ k" by (rule exI [of _ 2]) (simp add: mats_4_def)
  have l3: "length mats_3 = 3" by (simp add: mats_3_def)
  have "(3::nat) AND (3 - 1) \<noteq> 0" by simp
  then have "\<not> (\<exists>k. (3::nat) = 2 ^ k)" using and_pred_nat [of 3] by simp
  then have p3: "\<not> (\<exists>k. length mats_3 = 2 ^ k)" unfolding l3 .
  from intermodel_allreduce_dispatch [OF a, of sum_transforms]
    intermodel_allreduce_dispatch [OF b, of sum_transforms]
    intermodel_allreduce_dispatch [OF c, of sum_transforms] p4 p3
  show ?thesis by simp
qed

section \<open>Byte accounting\<close>

text \<open>
  Claim C9, the broadcast. \<open>intermodel_broadcast_matrix\<close> on the 2 by 2 matrix
  \<open>mat_example\<close> leaves \<open>bytes_sent\<close> and \<open>bytes_received\<close> at 0, where the accounting
  of the claim (and of \<open>intermodel_sum_matrix\<close>) adds 4 elements of 4 bytes to each.
\<close>

theorem broadcast_counts_no_bytes:
  "bytes_sent (intermodel_broadcast_matrix mat_example 0 comm_example) = 0
   \<and> bytes_received (intermodel_broadcast_matrix mat_example 0 comm_example) = 0
   \<and> size_t_add (bytes_sent comm_example)
        (4 * Height mat_example * Width mat_example) = 16
   \<and> size_t_add (bytes_received comm_example)
        (4 * Height mat_example * Width mat_example) = 16
   \<and> bytes_sent (intermodel_broadcast_matrix mat_example 0 comm_example)
       \<noteq> size_t_add (bytes_sent comm_example)
            (4 * Height mat_example * Width mat_example)"
  by (simp add: intermodel_broadcast_matrix_def comm_example_def size_t_add_def
      mat_example_def Width_def)

text \<open>
  What the matrix collectives do to the counters: \<open>intermodel_sum_matrix\<close> adds the
  element size times the number of elements of the matrix (of the local tile, for a
  distributed matrix) to \<open>bytes_sent\<close> and to \<open>bytes_received\<close>, in \<open>size_t\<close>
  arithmetic; \<open>intermodel_broadcast_matrix\<close> changes neither counter.
\<close>

lemma matrix_collectives_byte_accounting:
  "bytes_sent (intermodel_sum_matrix sz mat c) =
     (bytes_sent c + sz * Height mat * Width mat) mod 2 ^ 64
   \<and> bytes_received (intermodel_sum_matrix sz mat c) =
     (bytes_received c + sz * Height mat * Width mat) mod 2 ^ 64
   \<and> bytes_sent (intermodel_sum_matrix_dist sz tile c) =
     (bytes_sent c + sz * LocalHeight tile * LocalWidth tile) mod 2 ^ 64
   \<and> bytes_received (intermodel_sum_matrix_dist sz tile c) =
     (bytes_received c + sz * LocalHeight tile * LocalWidth tile) mod 2 ^ 64
   \<and> bytes_sent (intermodel_broadcast_matrix mat r c) = bytes_sent c
   \<and> bytes_received (intermodel_broadcast_matrix mat r c) = bytes_received c
   \<and> bytes_sent (intermodel_broadcast_matrix_dist tile r c) = bytes_sent c
   \<and> bytes_received (intermodel_broadcast_matrix_dist tile r c) = bytes_received c"
  by (simp add: intermodel_sum_matrix_def intermodel_sum_matrix_dist_def Let_def
      size_t_add_def intermodel_broadcast_matrix_def intermodel_broadcast_matrix_dist_def)

section \<open>The buffer pool\<close>

lemma get_collective_buffer_beyond:
  "bucket_len p s < idx \<Longrightarrow> get_collective_buffer s idx p = (nullptr, p)"
  by (auto simp: get_collective_buffer_def bucket_len_def split: option.splits)

lemma get_collective_buffer_existing:
  "idx < bucket_len p s \<Longrightarrow>
     get_collective_buffer s idx p = (the (collective_bufs p s) ! idx, p)"
  by (auto simp: get_collective_buffer_def bucket_len_def split: option.splits)

lemma get_collective_buffer_append:
  "idx = bucket_len p s \<Longrightarrow>
     get_collective_buffer s idx p =
       (Suc (length (heap_blocks p)),
        \<lparr>collective_bufs = (collective_bufs p)
            (s \<mapsto> (case collective_bufs p s of None \<Rightarrow> [] | Some bufs \<Rightarrow> bufs)
                    @ [Suc (length (heap_blocks p))]),
         heap_blocks = heap_blocks p @ [s]\<rparr>)"
  by (auto simp: get_collective_buffer_def bucket_len_def new_uint8_def split: option.splits)

lemma get_collective_buffer_heap_grows:
  "\<exists>new. heap_blocks (snd (get_collective_buffer s idx p)) = heap_blocks p @ new"
  by (auto simp: get_collective_buffer_def new_uint8_def split: option.splits)

lemma get_collective_buffer_bucket_grows:
  "collective_bufs p s' = Some bufs \<Longrightarrow>
   \<exists>new. collective_bufs (snd (get_collective_buffer s idx p)) s' = Some (bufs @ new)"
  by (auto simp: get_collective_buffer_def new_uint8_def split: option.splits)

lemma get_collective_buffers_bucket_grows:
  "collective_bufs p s' = Some bufs \<Longrightarrow>
   \<exists>new. collective_bufs (get_collective_buffers reqs p) s' = Some (bufs @ new)"
proof (induction reqs arbitrary: p bufs)
  case Nil
  then show ?case by simp
next
  case (Cons req reqs)
  obtain s idx where req: "req = (s, idx)" by (cases req)
  from get_collective_buffer_bucket_grows [OF Cons.prems, of s idx]
  obtain new1 where n1: "collective_bufs (snd (get_collective_buffer s idx p)) s' = Some (bufs @ new1)"
    by blast
  from Cons.IH [OF n1] obtain new2 where
    "collective_bufs (get_collective_buffers reqs (snd (get_collective_buffer s idx p))) s'
       = Some ((bufs @ new1) @ new2)" by blast
  then show ?case using req by simp
qed

lemma get_collective_buffers_heap_grows:
  "\<exists>new. heap_blocks (get_collective_buffers reqs p) = heap_blocks p @ new"
proof (induction reqs arbitrary: p)
  case Nil
  then show ?case by simp
next
  case (Cons req reqs)
  obtain s idx where req: "req = (s, idx)" by (cases req)
  from get_collective_buffer_heap_grows [of s idx p]
  obtain new1 where n1: "heap_blocks (snd (get_collective_buffer s idx p)) = heap_blocks p @ new1"
    by blast
  from Cons.IH [of "snd (get_collective_buffer s idx p)"] obtain new2 where
    "heap_blocks (get_collective_buffers reqs (snd (get_collective_buffer s idx p)))
       = heap_blocks (snd (get_collective_buffer s idx p)) @ new2" by blast
  then show ?case using req n1 by simp
qed

lemma get_collective_buffer_stable:
  assumes "get_collective_buffer s idx p = (buf, p1)" and "buf \<noteq> nullptr"
  shows "fst (get_collective_buffer s idx (get_collective_buffers reqs p1)) = buf"
proof -
  from assms obtain bufs where b: "collective_bufs p1 s = Some bufs" "idx < length bufs" "bufs ! idx = buf"
    by (auto simp: get_collective_buffer_def new_uint8_def nth_append split: option.splits if_splits)
  from get_collective_buffers_bucket_grows [OF b(1), of reqs] obtain new where
    "collective_bufs (get_collective_buffers reqs p1) s = Some (bufs @ new)" by blast
  then show ?thesis using b
    by (simp add: get_collective_buffer_def nth_append)
qed

text \<open>
  Claim C5, the out-of-sequence request. On the empty pool, and on a pool that holds one
  buffer of 8 bytes, a request for an index beyond the bucket returns the null pointer
  and leaves the pool as it is: no error is raised.
\<close>

theorem get_collective_buffer_out_of_sequence:
  "get_collective_buffer 8 1 empty_pool = (nullptr, empty_pool)
   \<and> get_collective_buffer 8 2 (snd (get_collective_buffer 8 0 empty_pool))
       = (nullptr, snd (get_collective_buffer 8 0 empty_pool))"
  by (simp add: get_collective_buffer_def empty_pool_def new_uint8_def)

section \<open>The data reader\<close>

lemma int32_id: "is_int32 x \<Longrightarrow> int32 x = x"
  by (simp add: int32_def is_int32_def)

lemma size_t_to_int_small: "n < 2 ^ 31 \<Longrightarrow> size_t_to_int n = int n"
  by (simp add: size_t_to_int_def)

text \<open>
  Claim C3 as stated fails at the epoch wrap: the reader \<open>reader_example\<close> has base
  offset 1; its \<open>update\<close> moves the position from 1 to 11, past its 3 indices, returns
  \<open>false\<close> and leaves the position at 1, not at 0.
\<close>

theorem update_wrap_position_not_zero:
  "fst (update rev reader_example) = False
   \<and> m_current_pos (snd (update rev reader_example)) = 1
   \<and> m_current_pos (snd (update rev reader_example)) \<noteq> 0
   \<and> m_current_mini_batch_idx (snd (update rev reader_example)) = 0"
  by (simp add: update_def reader_example_def Let_def Zeros_def Width_def int32_def
      size_t_to_int_def)

text \<open>
  Claim C3, amended. Let the shuffled index vector have fewer than \<open>2^31\<close> entries and
  let the \<open>int\<close> results \<open>current_pos + batch_stride\<close>,
  \<open>current_pos + last_mini_batch_stride\<close>, \<open>current_mini_batch_idx + 1\<close>,
  \<open>num_mini_batches_per_reader - 1\<close> and \<open>base_offset + model_offset\<close> be in the range
  of an \<open>int\<close>. Then \<open>update\<close> adds \<open>batch_stride\<close> to \<open>current_pos\<close>, or
  \<open>last_mini_batch_stride\<close> when alt-tail is enabled and the minibatch about to finish is
  at or past the penultimate one. If the new position is inside the shuffled index
  vector, the call returns \<open>true\<close>, keeps the new position and the indices, and
  increments \<open>current_mini_batch_idx\<close>. Otherwise it returns \<open>false\<close>, re-shuffles the
  indices unless \<open>first_n\<close> is set, resets \<open>current_mini_batch_idx\<close> to zero and resets
  \<open>current_pos\<close> to \<open>base_offset + model_offset\<close>.
\<close>

theorem update_advances_or_wraps:
  fixes r :: generic_data_reader
  assumes "length (m_shuffled_indices r) < 2 ^ 31"
    and "is_int32 (m_current_pos r + m_batch_stride r)"
    and "is_int32 (m_current_pos r + m_last_mini_batch_stride r)"
    and "is_int32 (m_current_mini_batch_idx r + 1)"
    and "is_int32 (m_num_mini_batches_per_reader r - 1)"
    and "is_int32 (m_base_offset r + m_model_offset r)"
  shows "let stride = (if m_use_alt_last_mini_batch_size r \<and>
                      m_num_mini_batches_per_reader r - 2 \<le> m_current_mini_batch_idx r
                   then m_last_mini_batch_stride r else m_batch_stride r);
             r' = snd (update shuffle r)
         in (m_current_pos r + stride < int (length (m_shuffled_indices r)) \<longrightarrow>
               fst (update shuffle r) = True
               \<and> m_current_pos r' = m_current_pos r + stride
               \<and> m_current_mini_batch_idx r' = m_current_mini_batch_idx r + 1
               \<and> m_shuffled_indices r' = m_shuffled_indices r)
          \<and> (\<not> m_current_pos r + stride < int (length (m_shuffled_indices r)) \<longrightarrow>
               fst (update shuffle r) = False
               \<and> m_current_pos r' = m_base_offset r + m_model_offset r
               \<and> m_current_mini_batch_idx r' = 0
               \<and> m_shuffled_indices r' =
                   (if m_first_n r then m_shuffled_indices r
                    else shuffle (m_shuffled_indices r)))"
  using assms(2-6)
  by (simp add: update_def Let_def int32_id size_t_to_int_small [OF assms(1)])

theorem update_advances_or_wraps_witness:
  "fst (update rev reader_23) = True
   \<and> m_current_pos (snd (update rev reader_23)) = 10
   \<and> m_current_mini_batch_idx (snd (update rev reader_23)) = 1
   \<and> fst (update rev (reader_23\<lparr>m_current_pos := 20\<rparr>)) = False
   \<and> m_current_pos (snd (update rev (reader_23\<lparr>m_current_pos := 20\<rparr>))) = 0
   \<and> m_shuffled_indices (snd (update rev (reader_23\<lparr>m_first_n := False, m_current_pos := 20\<rparr>)))
       = rev (map int [0..<23])"
proof -
  let ?a = "reader_23"
  let ?b = "reader_23\<lparr>m_current_pos := 20\<rparr>"
  let ?c = "reader_23\<lparr>m_first_n := False, m_current_pos := 20\<rparr>"
  have a: "length (m_shuffled_indices ?a) < 2 ^ 31"
    "is_int32 (m_current_pos ?a + m_batch_stride ?a)"
    "is_int32 (m_current_pos ?a + m_last_mini_batch_stride ?a)"
    "is_int32 (m_current_mini_batch_idx ?a + 1)"
    "is_int32 (m_num_mini_batches_per_reader ?a - 1)"
    "is_int32 (m_base_offset ?a + m_model_offset ?a)"
    by (simp_all add: reader_23_def reader_example_def is_int32_def)
  have b: "length (m_shuffled_indices ?b) < 2 ^ 31"
    "is_int32 (m_current_pos ?b + m_batch_stride ?b)"
    "is_int32 (m_current_pos ?b + m_last_mini_batch_stride ?b)"
    "is_int32 (m_current_mini_batch_idx ?b + 1)"
    "is_int32 (m_num_mini_batches_per_reader ?b - 1)"
    "is_int32 (m_base_offset ?b + m_model_offset ?b)"
    by (simp_all add: reader_23_def reader_example_def is_int32_def)
  have c: "length (m_shuffled_indices ?c) < 2 ^ 31"
    "is_int32 (m_current_pos ?c + m_batch_stride ?c)"
    "is_int32 (m_current_pos ?c + m_last_mini_batch_stride ?c)"
    "is_int32 (m_current_mini_batch_idx ?c + 1)"
    "is_int32 (m_num_mini_batches_per_reader ?c - 1)"
    "is_int32 (m_base_offset ?c + m_model_offset ?c)"
    by (simp_all add: reader_23_def reader_example_def is_int32_def)
  show ?thesis
    using update_advances_or_wraps [OF a, of rev] update_advances_or_wraps [OF b, of rev]
      update_advances_or_wraps [OF c, of rev]
    by (simp add: reader_23_def reader_example_def Let_def)
qed

text \<open>
  Claim C8. \<open>getm_batch_size\<close> returns \<open>last_mini_batch_size\<close> when alt-tail is enabled and
  \<open>current_mini_batch_idx\<close> is at or past \<open>num_mini_batches_per_reader - 1\<close>, and
  \<open>batch_size\<close> in every other case; the reader after the call is the reader before it.
\<close>

theorem getm_batch_size_cases:
  "(m_use_alt_last_mini_batch_size r \<and>
      m_num_mini_batches_per_reader r - 1 \<le> m_current_mini_batch_idx r
      \<longrightarrow> fst (getm_batch_size r) = m_last_mini_batch_size r)
   \<and> (\<not> (m_use_alt_last_mini_batch_size r \<and>
           m_num_mini_batches_per_reader r - 1 \<le> m_current_mini_batch_idx r)
      \<longrightarrow> fst (getm_batch_size r) = m_batch_size r)
   \<and> snd (getm_batch_size r) = r"
  by (simp add: getm_batch_size_def)

theorem getm_batch_size_cases_witness:
  "getm_batch_size (reader_23\<lparr>m_current_mini_batch_idx := 2\<rparr>)
     = (3, reader_23\<lparr>m_current_mini_batch_idx := 2\<rparr>)
   \<and> getm_batch_size (reader_23\<lparr>m_current_mini_batch_idx := 1\<rparr>)
     = (10, reader_23\<lparr>m_current_mini_batch_idx := 1\<rparr>)
   \<and> getm_batch_size (reader_example\<lparr>m_current_mini_batch_idx := 2\<rparr>)
     = (10, reader_example\<lparr>m_current_mini_batch_idx := 2\<rparr>)"
proof -
  have f: "m_use_alt_last_mini_batch_size (reader_23\<lparr>m_current_mini_batch_idx := 2\<rparr>)
      \<and> m_num_mini_batches_per_reader (reader_23\<lparr>m_current_mini_batch_idx := 2\<rparr>) - 1
          \<le> m_current_mini_batch_idx (reader_23\<lparr>m_current_mini_batch_idx := 2\<rparr>)"
    "\<not> (m_use_alt_last_mini_batch_size (reader_23\<lparr>m_current_mini_batch_idx := 1\<rparr>)
      \<and> m_num_mini_batches_per_reader (reader_23\<lparr>m_current_mini_batch_idx := 1\<rparr>) - 1
          \<le> m_current_mini_batch_idx (reader_23\<lparr>m_current_mini_batch_idx := 1\<rparr>))"
    "\<not> (m_use_alt_last_mini_batch_size (reader_example\<lparr>m_current_mini_batch_idx := 2\<rparr>)
      \<and> m_num_mini_batches_per_reader (reader_example\<lparr>m_current_mini_batch_idx := 2\<rparr>) - 1
          \<le> m_current_mini_batch_idx (reader_example\<lparr>m_current_mini_batch_idx := 2\<rparr>))"
    by (simp_all add: reader_23_def reader_example_def)
  have v: "m_last_mini_batch_size (reader_23\<lparr>m_current_mini_batch_idx := 2\<rparr>) = 3"
    "m_batch_size (reader_23\<lparr>m_current_mini_batch_idx := 1\<rparr>) = 10"
    "m_batch_size (reader_example\<lparr>m_current_mini_batch_idx := 2\<rparr>) = 10"
    by (simp_all add: reader_23_def reader_example_def)
  show ?thesis
    using getm_batch_size_cases [of "reader_23\<lparr>m_current_mini_batch_idx := 2\<rparr>"]
      getm_batch_size_cases [of "reader_23\<lparr>m_current_mini_batch_idx := 1\<rparr>"]
      getm_batch_size_cases [of "reader_example\<lparr>m_current_mini_batch_idx := 2\<rparr>"]
      f v
    by (metis prod.collapse)
qed

text \<open>
  Claim C7 as stated fails when no limit is configured: on \<open>reader_example\<close> with the
  shuffle enabled and the permutation \<open>rev\<close>, the call returns after the shuffle and the
  indices stay \<open>3, 2, 1\<close>, unsorted.
\<close>

theorem select_subset_no_limits_not_sorted:
  "select_subset_of_data rev (reader_example\<lparr>m_first_n := False\<rparr>)
     = Inr (reader_example\<lparr>m_first_n := False, m_shuffled_indices := [3, 2, 1]\<rparr>)
   \<and> sort [3, 2, 1 :: int] \<noteq> [3, 2, 1]"
  by (simp add: select_subset_of_data_def reader_example_def get_firstN_def
      has_max_sample_count_def has_use_percent_def has_validation_percent_def)

subsection \<open>Rounding to double\<close>

text \<open>
  \<open>ilog2\<close> is the binary exponent, so \<open>double_round\<close> rounds in the unit of the last of 53
  bits; it leaves a non-negative number non-negative, does not pass an integer below
  \<open>2^53\<close>, and keeps such an integer as it is.
\<close>

lemma bit_length_bounds:
  "0 < a \<Longrightarrow> 2 ^ (bit_length a - 1) \<le> a \<and> a < 2 ^ bit_length a"
proof (induction a rule: bit_length.induct)
  case (1 a)
  show ?case
  proof (cases "a = 1")
    case True
    then show ?thesis by (simp add: bit_length.simps [of 1] bit_length.simps [of 0])
  next
    case False
    with "1.prems" have h: "0 < a div 2" by simp
    from "1.IH" [OF _ h] "1.prems"
    have IH: "2 ^ (bit_length (a div 2) - 1) \<le> a div 2" "a div 2 < 2 ^ bit_length (a div 2)"
      by simp_all
    have bl: "bit_length a = Suc (bit_length (a div 2))"
      using "1.prems" by (subst bit_length.simps) simp
    have pos: "0 < bit_length (a div 2)"
      using h by (subst bit_length.simps) simp
    then obtain m where m: "bit_length (a div 2) = Suc m" by (cases "bit_length (a div 2)") auto
    have "2 * 2 ^ m \<le> 2 * (a div 2)" using IH(1) m by simp
    also have "\<dots> \<le> a" by simp
    finally have lo: "2 ^ (bit_length a - 1) \<le> a" by (simp add: bl m)
    have "a div 2 + 1 \<le> 2 ^ bit_length (a div 2)" using IH(2) by simp
    then have "2 * (a div 2) + 2 \<le> 2 * 2 ^ bit_length (a div 2)" by simp
    moreover have "a < 2 * (a div 2) + 2" by presburger
    ultimately have hi: "a < 2 ^ bit_length a" by (simp add: bl)
    from lo hi show ?thesis ..
  qed
qed

lemma bit_length_pos: "0 < a \<Longrightarrow> 0 < bit_length a"
  by (subst bit_length.simps) simp

lemma ilog2_bounds:
  assumes "0 < x"
  shows "2 powi ilog2 x \<le> x" and "x < 2 powi (ilog2 x + 1)"
proof -
  obtain a b where q: "quotient_of x = (a, b)" by (cases "quotient_of x")
  have b: "0 < b" using q by (rule quotient_of_denom_pos)
  have x: "x = of_int a / of_int b" using q by (rule quotient_of_div)
  have a: "0 < a" using assms b unfolding x by (simp add: zero_less_divide_iff)
  define fa where "fa = bit_length a"
  define fb where "fb = bit_length b"
  define k where "k = int fa - int fb"
  have fa: "0 < fa" and fb: "0 < fb" using a b by (simp_all add: fa_def fb_def bit_length_pos)
  have ba: "2 ^ (fa - 1) \<le> a" "a < 2 ^ fa"
    using bit_length_bounds [OF a] by (simp_all add: fa_def)
  have bb: "2 ^ (fb - 1) \<le> b" "b < 2 ^ fb"
    using bit_length_bounds [OF b] by (simp_all add: fb_def)
  have ra: "(2::rat) ^ (fa - 1) \<le> of_int a" "(of_int a :: rat) < 2 ^ fa"
    using ba
    by (metis of_int_le_iff of_int_numeral of_int_power,
        metis of_int_less_iff of_int_numeral of_int_power)
  have rb: "(2::rat) ^ (fb - 1) \<le> of_int b" "(of_int b :: rat) < 2 ^ fb"
    using bb
    by (metis of_int_le_iff of_int_numeral of_int_power,
        metis of_int_less_iff of_int_numeral of_int_power)
  have bpos: "(0::rat) < of_int b" using b by simp
  have il: "ilog2 x = (if 2 powi k \<le> x then k else k - 1)"
    by (simp add: ilog2_def q k_def fa_def fb_def)
  have lower: "2 powi (k - 1) \<le> x"
  proof -
    have "(2::rat) powi (k - 1) = 2 powi (int (fa - 1) - int fb)"
      using fa by (simp add: k_def of_nat_diff algebra_simps)
    also have "\<dots> = 2 ^ (fa - 1) / 2 ^ fb" by (simp add: power_int_diff)
    also have "\<dots> \<le> of_int a / 2 ^ fb" using ra(1) by (simp add: divide_right_mono)
    also have "\<dots> \<le> of_int a / of_int b"
      using rb(2) bpos a by (intro divide_left_mono) (simp_all add: less_imp_le)
    finally show ?thesis by (simp add: x)
  qed
  have upper: "x < 2 powi (k + 1)"
  proof -
    have "x = of_int a / of_int b" by (rule x)
    also have "\<dots> < 2 ^ fa / of_int b" using ra(2) bpos by (simp add: divide_strict_right_mono)
    also have "\<dots> \<le> 2 ^ fa / 2 ^ (fb - 1)"
      using rb(1) bpos by (intro divide_left_mono) (simp_all add: zero_less_mult_iff)
    also have "\<dots> = 2 powi (int fa - int (fb - 1))" by (simp add: power_int_diff)
    also have "int fa - int (fb - 1) = k + 1" using fb by (simp add: k_def of_nat_diff)
    finally show ?thesis .
  qed
  show "2 powi ilog2 x \<le> x" using lower by (simp add: il)
  show "x < 2 powi (ilog2 x + 1)" using upper by (auto simp: il not_le)
qed

lemma ilog2_unique:
  assumes "2 powi e \<le> x" and "x < 2 powi (e + 1)"
  shows "ilog2 x = e"
proof -
  have pos: "0 < x" using assms(1) by (rule less_le_trans [rotated]) simp
  note b = ilog2_bounds [OF pos]
  have "\<not> ilog2 x < e"
  proof
    assume "ilog2 x < e"
    then have "ilog2 x + 1 \<le> e" by simp
    then have "(2::rat) powi (ilog2 x + 1) \<le> 2 powi e" by (intro power_int_increasing) simp_all
    with b(2) assms(1) show False by simp
  qed
  moreover have "\<not> e < ilog2 x"
  proof
    assume "e < ilog2 x"
    then have "e + 1 \<le> ilog2 x" by simp
    then have "(2::rat) powi (e + 1) \<le> 2 powi ilog2 x" by (intro power_int_increasing) simp_all
    with b(1) assms(2) show False by simp
  qed
  ultimately show ?thesis by simp
qed

lemma round_to_even_of_int [simp]: "round_to_even (of_int n) = n"
  by (simp add: round_to_even_def)

lemma round_to_even_ge_floor: "\<lfloor>x\<rfloor> \<le> round_to_even x"
  by (simp add: round_to_even_def Let_def)

lemma round_to_even_le_int:
  assumes "x \<le> of_int m"
  shows "round_to_even x \<le> m"
proof (cases "x = of_int \<lfloor>x\<rfloor>")
  case True
  then have "round_to_even x = \<lfloor>x\<rfloor>" by (simp add: round_to_even_def)
  also have "\<dots> \<le> m" using assms by (simp add: floor_le_iff)
  finally show ?thesis .
next
  case False
  then have "of_int \<lfloor>x\<rfloor> < x" using of_int_floor_le [of x] by (auto simp: less_le)
  then have "(of_int \<lfloor>x\<rfloor> :: rat) < of_int m" using assms by (rule less_le_trans)
  then have "\<lfloor>x\<rfloor> + 1 \<le> m" by simp
  moreover have "round_to_even x \<le> \<lfloor>x\<rfloor> + 1" by (simp add: round_to_even_def Let_def)
  ultimately show ?thesis by simp
qed

lemma double_round_nonneg:
  assumes "0 \<le> x"
  shows "0 \<le> double_round x"
proof (cases "x = 0")
  case True
  then show ?thesis by (simp add: double_round_def)
next
  case False
  define u :: rat where "u = 2 powi (max (ilog2 \<bar>x\<bar> - 52) (- 1074))"
  have u: "0 < u" by (simp add: u_def)
  have "0 \<le> x / u" using assms u by simp
  then have "0 \<le> \<lfloor>x / u\<rfloor>" by simp
  also have "\<dots> \<le> round_to_even (x / u)" by (rule round_to_even_ge_floor)
  finally have "0 \<le> round_to_even (x / u)" .
  then have "0 \<le> of_int (round_to_even (x / u)) * u" using u by simp
  then show ?thesis using False by (simp add: double_round_def Let_def u_def)
qed

lemma ilog2_small:
  assumes "0 < x" and "x < 2 ^ 53"
  shows "ilog2 x \<le> 52"
proof (rule ccontr)
  assume "\<not> ilog2 x \<le> 52"
  then have "53 \<le> ilog2 x" by simp
  then have "(2::rat) powi 53 \<le> 2 powi ilog2 x" by (intro power_int_increasing) simp_all
  also have "\<dots> \<le> x" using assms(1) by (rule ilog2_bounds)
  finally show False using assms(2) by simp
qed

lemma int_over_unit:
  assumes "q \<le> 0"
  shows "(of_int n :: rat) / 2 powi q = of_int (n * 2 ^ nat (- q))"
proof -
  have "(2::rat) powi q = inverse (2 powi (- q))" by (simp add: power_int_minus)
  also have "(2::rat) powi (- q) = 2 ^ nat (- q)" using assms by (simp add: power_int_def)
  finally show ?thesis by (simp add: divide_inverse)
qed

lemma times_unit:
  assumes "q \<le> 0"
  shows "(of_int (n * 2 ^ nat (- q)) :: rat) * 2 powi q = of_int n"
proof -
  have "(of_int (n * 2 ^ nat (- q)) :: rat) * 2 powi q = of_int n / 2 powi q * 2 powi q"
    by (simp only: int_over_unit [OF assms])
  also have "\<dots> = of_int n" by simp
  finally show ?thesis .
qed

lemma double_round_le_int:
  assumes "0 \<le> x" and "x \<le> of_int n" and "n < 2 ^ 53"
  shows "double_round x \<le> of_int n"
proof (cases "x = 0")
  case True
  then show ?thesis using assms(2) by (simp add: double_round_def)
next
  case False
  with assms(1) have pos: "0 < x" by simp
  define q where "q = max (ilog2 \<bar>x\<bar> - 52) (- 1074)"
  define u :: rat where "u = 2 powi q"
  have u: "0 < u" by (simp add: u_def)
  have "(of_int n :: rat) < of_int (2 ^ 53)" using assms(3) by (simp only: of_int_less_iff)
  then have "(of_int n :: rat) < 2 ^ 53" by simp
  with assms(2) have "x < 2 ^ 53" by (rule le_less_trans)
  with pos have "ilog2 x \<le> 52" by (rule ilog2_small)
  then have q: "q \<le> 0" using pos by (simp add: q_def)
  have "x / u \<le> of_int n / u" using assms(2) u by (simp add: divide_right_mono)
  also have "\<dots> = of_int (n * 2 ^ nat (- q))" unfolding u_def using q by (rule int_over_unit)
  finally have "round_to_even (x / u) \<le> n * 2 ^ nat (- q)" by (rule round_to_even_le_int)
  then have "(of_int (round_to_even (x / u)) :: rat) \<le> of_int (n * 2 ^ nat (- q))"
    by (simp only: of_int_le_iff)
  then have "of_int (round_to_even (x / u)) * u \<le> of_int (n * 2 ^ nat (- q)) * u"
    using u by (simp add: mult_right_mono)
  also have "of_int (n * 2 ^ nat (- q)) * u = of_int n"
    unfolding u_def using q by (rule times_unit)
  finally show ?thesis using False by (simp add: double_round_def Let_def u_def q_def)
qed

lemma double_round_of_int:
  assumes "0 \<le> n" and "n < 2 ^ 53"
  shows "double_round (of_int n) = of_int n"
proof (cases "n = 0")
  case True
  then show ?thesis by (simp add: double_round_def)
next
  case False
  with assms(1) have pos: "(0::rat) < of_int n" by simp
  define q where "q = max (ilog2 \<bar>of_int n\<bar> - 52) (- 1074)"
  have "(of_int n :: rat) < of_int (2 ^ 53)" using assms(2) by (simp only: of_int_less_iff)
  then have "(of_int n :: rat) < 2 ^ 53" by simp
  with pos have "ilog2 (of_int n) \<le> 52" by (rule ilog2_small)
  then have q: "q \<le> 0" using pos by (simp add: q_def)
  have "of_int (round_to_even (of_int n / 2 powi q)) * 2 powi q = (of_int n :: rat)"
    unfolding int_over_unit [OF q] round_to_even_of_int using q by (rule times_unit)
  then show ?thesis using False by (simp add: double_round_def Let_def q_def)
qed

lemma double_round_exponent:
  assumes "2 powi e \<le> \<bar>x\<bar>" and "\<bar>x\<bar> < 2 powi (e + 1)" and "- 1022 \<le> e"
  shows "double_round x = of_int (round_to_even (x / 2 powi (e - 52))) * 2 powi (e - 52)"
proof -
  have "ilog2 \<bar>x\<bar> = e" using assms(1,2) by (rule ilog2_unique)
  then have m: "max (ilog2 \<bar>x\<bar> - 52) (- 1074) = e - 52" using assms(3) by simp
  have "(0::rat) < 2 powi e" by simp
  then have "0 < \<bar>x\<bar>" using assms(1) by (rule less_le_trans)
  then have "x \<noteq> 0" by simp
  then show ?thesis unfolding double_round_def Let_def m by simp
qed

lemma round_to_even_near:
  assumes "\<bar>x - of_int n\<bar> < 1 / 2"
  shows "round_to_even x = n"
proof (cases "of_int n \<le> x")
  case True
  with assms have "x < of_int n + 1 / 2" by simp
  then have "x < of_int n + 1" by simp
  with True have f: "\<lfloor>x\<rfloor> = n" by (rule floor_unique)
  have "x - of_int n < 1 / 2" using \<open>x < of_int n + 1 / 2\<close> by simp
  then show ?thesis by (simp add: round_to_even_def f)
next
  case False
  then have lt: "x < of_int n" by simp
  with assms have gt: "of_int n - 1 / 2 < x" by simp
  have "of_int (n - 1) \<le> x" using gt by simp
  moreover have "x < of_int (n - 1) + 1" using lt by simp
  ultimately have f: "\<lfloor>x\<rfloor> = n - 1" by (rule floor_unique)
  have "1 / 2 < x - of_int (n - 1)" using gt by simp
  then show ?thesis by (simp add: round_to_even_def f)
qed

lemma double_half_of_100: "double_times_int (1 / 2) 100 = 50"
proof -
  have c: "int_to_double 100 = 100"
    using double_round_of_int [of 100] by (simp add: int_to_double_def)
  have "double_round 50 = of_int 50" using double_round_of_int [of 50] by simp
  then show ?thesis by (simp add: double_times_int_def c)
qed

lemma double_fifth_of_50:
  "double_times_int (3602879701896397 / 18014398509481984) 50 = 10"
proof -
  have c: "int_to_double 50 = 50"
    using double_round_of_int [of 50] by (simp add: int_to_double_def)
  define x :: rat where "x = 3602879701896397 / 18014398509481984 * 50"
  have "double_round x = of_int (round_to_even (x / 2 powi (3 - 52))) * 2 powi (3 - 52)"
    by (rule double_round_exponent) (simp_all add: x_def power_int_minus)
  also have "x / 2 powi (3 - 52) = 180143985094819850 / 32"
    by (simp add: x_def power_int_minus)
  also have "round_to_even (180143985094819850 / 32) = 5629499534213120"
    by (rule round_to_even_near) simp
  also have "of_int 5629499534213120 * 2 powi (3 - 52) = (10::rat)"
    by (simp add: power_int_minus)
  finally show ?thesis by (simp add: double_times_int_def c x_def)
qed

lemma double_fifth: "double_round (1 / 5) = 3602879701896397 / 18014398509481984"
proof -
  have "double_round (1 / 5)
          = of_int (round_to_even ((1 / 5) / 2 powi (- 3 - 52))) * 2 powi (- 3 - 52)"
    by (rule double_round_exponent) (simp_all add: power_int_minus)
  also have "(1 / 5 :: rat) / 2 powi (- 3 - 52) = 36028797018963968 / 5"
    by (simp add: power_int_minus)
  also have "round_to_even (36028797018963968 / 5) = 7205759403792794"
    by (rule round_to_even_near) simp
  also have "of_int 7205759403792794 * 2 powi (- 3 - 52)
               = (3602879701896397 / 18014398509481984 :: rat)"
    by (simp add: power_int_minus)
  finally show ?thesis .
qed

text \<open>
  An example of a product that is not the exact one: the \<open>double\<close> nearest to \<open>0.57\<close> is
  \<open>5134103575202365 / 2^53\<close>, and its product with 100 is a \<open>double\<close> just below 57, so
  the integer part is 56.
\<close>

lemma double_057_of_100:
  "\<lfloor>double_times_int (5134103575202365 / 9007199254740992) 100\<rfloor> = 56"
proof -
  have c: "int_to_double 100 = 100"
    using double_round_of_int [of 100] by (simp add: int_to_double_def)
  define x :: rat where "x = 5134103575202365 / 9007199254740992 * 100"
  have "double_round x = of_int (round_to_even (x / 2 powi (5 - 52))) * 2 powi (5 - 52)"
    by (rule double_round_exponent) (simp_all add: x_def power_int_minus)
  also have "x / 2 powi (5 - 52) = 513410357520236500 / 64"
    by (simp add: x_def power_int_minus)
  also have "round_to_even (513410357520236500 / 64) = 8022036836253695"
    by (rule round_to_even_near) simp
  also have "of_int 8022036836253695 * 2 powi (5 - 52)
               = (8022036836253695 / 140737488355328 :: rat)"
    by (simp add: power_int_minus)
  finally have "double_round x = 8022036836253695 / 140737488355328" .
  then have v: "double_times_int (5134103575202365 / 9007199254740992) 100
                  = 8022036836253695 / 140737488355328"
    by (simp only: double_times_int_def c x_def)
  have "\<lfloor>8022036836253695 / 140737488355328 :: rat\<rfloor> = 56"
    by (rule floor_unique) simp_all
  then show ?thesis by (simp only: v)
qed

lemma double_fraction_bounds:
  assumes "0 \<le> p" and "p \<le> 1" and "n < 2 ^ 31"
  shows "0 \<le> double_times_int p (int n)"
    and "nat \<lfloor>double_times_int p (int n)\<rfloor> \<le> n"
proof -
  have "int n < 2 ^ 31" using assms(3) by (metis of_nat_less_iff of_nat_numeral of_nat_power)
  then have n53: "int n < 2 ^ 53" by simp
  have c: "int_to_double (int n) = of_int (int n)"
    unfolding int_to_double_def using _ n53 by (rule double_round_of_int) simp
  have nn: "0 \<le> p * of_int (int n)" using assms(1) by simp
  have "p * of_int (int n) \<le> 1 * of_int (int n)"
    using assms(2) by (intro mult_right_mono) simp_all
  then have le: "p * of_int (int n) \<le> of_int (int n)" by simp
  show "0 \<le> double_times_int p (int n)"
    unfolding double_times_int_def c using nn by (rule double_round_nonneg)
  have "double_times_int p (int n) \<le> of_int (int n)"
    unfolding double_times_int_def c using nn le n53 by (rule double_round_le_int)
  then have "\<lfloor>double_times_int p (int n)\<rfloor> \<le> int n" by (simp add: floor_le_iff)
  then show "nat \<lfloor>double_times_int p (int n)\<rfloor> \<le> n" by simp
qed

subsection \<open>The steps of the subset selection\<close>

lemma resize_take: "n \<le> length xs \<Longrightarrow> resize n xs = take n xs"
  by (simp add: resize_def)

lemma truncate_to_long_nonneg:
  "0 \<le> x \<Longrightarrow> truncate_to_long x = \<lfloor>x\<rfloor>"
  by (simp add: truncate_to_long_def)

lemma select_truncate_ok:
  assumes "percent_ok (m_use_percent r)" and "length (m_shuffled_indices r) < 2 ^ 31"
    and "\<not> (m_max_sample_count_was_set r \<and> length (m_shuffled_indices r) < m_max_sample_count r)"
  shows "select_truncate r =
     Inr (r\<lparr>m_shuffled_indices :=
       (if m_max_sample_count_was_set r then take (m_max_sample_count r) (m_shuffled_indices r)
        else if m_use_percent r \<noteq> -1
        then take (nat \<lfloor>double_times_int (m_use_percent r)
                           (int (length (m_shuffled_indices r)))\<rfloor>)
               (m_shuffled_indices r)
        else m_shuffled_indices r)\<rparr>)"
proof (cases "m_max_sample_count_was_set r")
  case True
  with assms(3) have "m_max_sample_count r \<le> length (m_shuffled_indices r)" by simp
  with True show ?thesis
    by (simp add: select_truncate_def has_max_sample_count_def get_max_sample_count_def
        getNumData_def resize_take)
next
  case False
  show ?thesis
  proof (cases "m_use_percent r = -1")
    case True
    with False show ?thesis
      by (simp add: select_truncate_def has_max_sample_count_def has_use_percent_def)
  next
    case nm: False
    with assms(1) have p: "0 \<le> m_use_percent r" "m_use_percent r \<le> 1"
      by (auto simp: percent_ok_def)
    note b = double_fraction_bounds [OF p assms(2)]
    show ?thesis using False nm b
      by (simp add: select_truncate_def has_max_sample_count_def has_use_percent_def
          get_use_percent_def getNumData_def truncate_to_long_nonneg resize_take)
  qed
qed

lemma select_validation_ok:
  assumes "percent_ok (m_validation_percent r)" and "length (m_shuffled_indices r) < 2 ^ 31"
  shows "select_validation r =
     (let u = (if m_validation_percent r \<noteq> -1
               then nat \<lfloor>double_times_int (m_validation_percent r)
                           (int (length (m_shuffled_indices r)))\<rfloor>
               else 0);
          n = length (m_shuffled_indices r)
      in r\<lparr>m_shuffled_indices := take (n - u) (m_shuffled_indices r),
           m_unused_indices := (if 0 < u then drop (n - u) (m_shuffled_indices r)
                                else m_unused_indices r)\<rparr>)"
proof (cases "m_validation_percent r = -1")
  case True
  then show ?thesis by (simp add: select_validation_def has_validation_percent_def)
next
  case False
  with assms have p: "0 \<le> m_validation_percent r" "m_validation_percent r \<le> 1"
    by (auto simp: percent_ok_def)
  define n where "n = length (m_shuffled_indices r)"
  define u where "u = nat \<lfloor>double_times_int (m_validation_percent r) (int n)\<rfloor>"
  have n31: "n < 2 ^ 31" using assms(2) by (simp add: n_def)
  note b = double_fraction_bounds [OF p n31]
  have fl: "0 \<le> \<lfloor>double_times_int (m_validation_percent r) (int n)\<rfloor>" using b(1) by simp
  have le: "u \<le> n" unfolding u_def by (rule b(2))
  have tr: "truncate_to_long (double_times_int (m_validation_percent r) (int n)) = int u"
    using b(1) fl by (simp add: truncate_to_long_nonneg u_def)
  have use_me: "nat (int n - int u) = n - u" using le by simp
  show ?thesis
  proof (cases "0 < u")
    case True
    then show ?thesis using False tr use_me le
      unfolding select_validation_def has_validation_percent_def get_validation_percent_def
        getNumData_def n_def [symmetric] Let_def
      by (simp add: u_def [symmetric] n_def [symmetric] resize_take)
  next
    case z: False
    then show ?thesis using False tr
      unfolding select_validation_def has_validation_percent_def get_validation_percent_def
        getNumData_def n_def [symmetric] Let_def
      by (simp add: u_def [symmetric] n_def [symmetric])
  qed
qed

lemma select_sort_eq:
  "select_sort r =
     r\<lparr>m_shuffled_indices := (if m_first_n r then id else sort) (m_shuffled_indices r),
       m_unused_indices := (if m_first_n r then id else sort) (m_unused_indices r)\<rparr>"
  by (simp add: select_sort_def get_firstN_def Let_def)

lemma select_subset_of_data_shuffled:
  "select_subset_of_data shuffle r =
     (let r1 = r\<lparr>m_shuffled_indices := subset_s0 shuffle r\<rparr>
      in if \<not> (m_max_sample_count_was_set r \<or> m_use_percent r \<noteq> -1
                 \<or> m_validation_percent r \<noteq> -1)
         then Inr r1
         else (case select_truncate r1 of
                 Inl e \<Rightarrow> Inl e
               | Inr r2 \<Rightarrow> Inr (select_sort (select_validation r2))))"
  by (simp add: select_subset_of_data_def subset_s0_def get_firstN_def Let_def
      has_max_sample_count_def has_use_percent_def has_validation_percent_def)

lemma select_subset_of_data_result:
  assumes "percent_ok (m_use_percent r)" and "percent_ok (m_validation_percent r)"
    and "length (subset_s0 shuffle r) < 2 ^ 31"
  shows "(m_max_sample_count_was_set r \<and> length (subset_s0 shuffle r) < m_max_sample_count r
            \<longrightarrow> select_subset_of_data shuffle r = Inl SubsetTooLarge)
       \<and> (\<not> m_max_sample_count_was_set r \<and> m_use_percent r = -1 \<and> m_validation_percent r = -1
            \<longrightarrow> select_subset_of_data shuffle r
                  = Inr (r\<lparr>m_shuffled_indices := subset_s0 shuffle r\<rparr>))
       \<and> ((m_max_sample_count_was_set r \<or> m_use_percent r \<noteq> -1 \<or> m_validation_percent r \<noteq> -1)
            \<and> \<not> (m_max_sample_count_was_set r
                   \<and> length (subset_s0 shuffle r) < m_max_sample_count r)
            \<longrightarrow> select_subset_of_data shuffle r
                  = Inr (r\<lparr>m_shuffled_indices :=
                             (if m_first_n r then id else sort)
                               (take (length (subset_s1 shuffle r) - subset_unused_count shuffle r)
                                  (subset_s1 shuffle r)),
                           m_unused_indices :=
                             (if m_first_n r then id else sort)
                               (if 0 < subset_unused_count shuffle r
                                then drop (length (subset_s1 shuffle r)
                                             - subset_unused_count shuffle r)
                                       (subset_s1 shuffle r)
                                else m_unused_indices r)\<rparr>))"
proof (intro conjI impI)
  assume "m_max_sample_count_was_set r \<and> length (subset_s0 shuffle r) < m_max_sample_count r"
  then show "select_subset_of_data shuffle r = Inl SubsetTooLarge"
    by (simp add: select_subset_of_data_shuffled select_truncate_def has_max_sample_count_def
        get_max_sample_count_def getNumData_def)
next
  assume "\<not> m_max_sample_count_was_set r \<and> m_use_percent r = -1 \<and> m_validation_percent r = -1"
  then show "select_subset_of_data shuffle r = Inr (r\<lparr>m_shuffled_indices := subset_s0 shuffle r\<rparr>)"
    by (simp add: select_subset_of_data_shuffled)
next
  assume a: "(m_max_sample_count_was_set r \<or> m_use_percent r \<noteq> -1 \<or> m_validation_percent r \<noteq> -1)
            \<and> \<not> (m_max_sample_count_was_set r
                   \<and> length (subset_s0 shuffle r) < m_max_sample_count r)"
  define r1 where "r1 = r\<lparr>m_shuffled_indices := subset_s0 shuffle r\<rparr>"
  define r2 where "r2 = r\<lparr>m_shuffled_indices := subset_s1 shuffle r\<rparr>"
  have t: "select_truncate r1 = Inr r2"
    using select_truncate_ok [of r1] assms(1,3) a
    by (simp add: r1_def r2_def subset_s1_def)
  have "length (subset_s1 shuffle r) \<le> length (subset_s0 shuffle r)"
    by (simp add: subset_s1_def)
  with assms(3) have l1: "length (subset_s1 shuffle r) < 2 ^ 31" by (rule le_less_trans [rotated])
  have v: "select_validation r2 =
      r\<lparr>m_shuffled_indices :=
            take (length (subset_s1 shuffle r) - subset_unused_count shuffle r)
              (subset_s1 shuffle r),
         m_unused_indices :=
            (if 0 < subset_unused_count shuffle r
             then drop (length (subset_s1 shuffle r) - subset_unused_count shuffle r)
                    (subset_s1 shuffle r)
             else m_unused_indices r)\<rparr>"
    using select_validation_ok [of r2] assms(2) l1
    by (simp add: r2_def subset_unused_count_def Let_def)
  show "select_subset_of_data shuffle r
                  = Inr (r\<lparr>m_shuffled_indices :=
                             (if m_first_n r then id else sort)
                               (take (length (subset_s1 shuffle r) - subset_unused_count shuffle r)
                                  (subset_s1 shuffle r)),
                           m_unused_indices :=
                             (if m_first_n r then id else sort)
                               (if 0 < subset_unused_count shuffle r
                                then drop (length (subset_s1 shuffle r)
                                             - subset_unused_count shuffle r)
                                       (subset_s1 shuffle r)
                                else m_unused_indices r)\<rparr>)"
    using a t unfolding select_subset_of_data_shuffled Let_def r1_def [symmetric]
    by (simp add: v select_sort_eq)
qed

lemma length_fin: "length ((if b then id else sort) (xs::int list)) = length xs"
  by simp

text \<open>
  Claim C7, amended. With the percentages in the range their setters enforce and
  fewer than \<open>2^31\<close> indices, \<open>select_subset_of_data\<close> shuffles the indices unless
  \<open>first_n\<close> is set; it fails with \<open>SubsetTooLarge\<close> whenever \<open>max_sample_count\<close> is set
  and exceeds the data count; when none of \<open>max_sample_count\<close>, \<open>use_percent\<close> and
  \<open>validation_percent\<close> is set it returns right after the shuffle, without sorting;
  otherwise it truncates the indices to \<open>max_sample_count\<close> (or to the integer part of
  the \<open>double\<close> product of \<open>use_percent\<close> and the data count), moves the integer part of
  the \<open>double\<close> product of \<open>validation_percent\<close> and the number of remaining indices from
  the end of the indices to the unused vector, and sorts both vectors unless \<open>first_n\<close>
  is set. In particular, 100 indices with \<open>use_percent = 0.5\<close> and
  \<open>validation_percent = 0.2\<close>, the \<open>double\<close> \<open>3602879701896397 / 2^54\<close>, leave 40 indices
  and 10 unused ones.
\<close>

theorem select_subset_of_data_steps:
  assumes "percent_ok (m_use_percent r)" and "percent_ok (m_validation_percent r)"
    and "length (subset_s0 shuffle r) < 2 ^ 31"
  shows "(m_max_sample_count_was_set r \<and> length (subset_s0 shuffle r) < m_max_sample_count r
            \<longrightarrow> select_subset_of_data shuffle r = Inl SubsetTooLarge)
       \<and> (\<not> m_max_sample_count_was_set r \<and> m_use_percent r = -1 \<and> m_validation_percent r = -1
            \<longrightarrow> select_subset_of_data shuffle r
                  = Inr (r\<lparr>m_shuffled_indices := subset_s0 shuffle r\<rparr>))
       \<and> ((m_max_sample_count_was_set r \<or> m_use_percent r \<noteq> -1 \<or> m_validation_percent r \<noteq> -1)
            \<and> \<not> (m_max_sample_count_was_set r
                   \<and> length (subset_s0 shuffle r) < m_max_sample_count r)
            \<longrightarrow> select_subset_of_data shuffle r
                  = Inr (r\<lparr>m_shuffled_indices :=
                             (if m_first_n r then id else sort)
                               (take (length (subset_s1 shuffle r) - subset_unused_count shuffle r)
                                  (subset_s1 shuffle r)),
                           m_unused_indices :=
                             (if m_first_n r then id else sort)
                               (if 0 < subset_unused_count shuffle r
                                then drop (length (subset_s1 shuffle r)
                                             - subset_unused_count shuffle r)
                                       (subset_s1 shuffle r)
                                else m_unused_indices r)\<rparr>))
       \<and> (length (subset_s0 shuffle r) = 100 \<and> \<not> m_max_sample_count_was_set r
            \<and> m_use_percent r = 1 / 2
            \<and> m_validation_percent r = 3602879701896397 / 18014398509481984
            \<longrightarrow> (\<exists>r'. select_subset_of_data shuffle r = Inr r'
                      \<and> length (m_shuffled_indices r') = 40
                      \<and> length (m_unused_indices r') = 10))"
proof -
  note res = select_subset_of_data_result [OF assms]
  have "\<exists>r'. select_subset_of_data shuffle r = Inr r'
                      \<and> length (m_shuffled_indices r') = 40
                      \<and> length (m_unused_indices r') = 10"
    if h: "length (subset_s0 shuffle r) = 100 \<and> \<not> m_max_sample_count_was_set r
            \<and> m_use_percent r = 1 / 2
            \<and> m_validation_percent r = 3602879701896397 / 18014398509481984"
  proof -
    from h have l0: "length (subset_s0 shuffle r) = 100"
      and nset: "\<not> m_max_sample_count_was_set r"
      and up: "m_use_percent r = 1 / 2"
      and vp: "m_validation_percent r = 3602879701896397 / 18014398509481984"
      by simp_all
    have e1: "\<lfloor>double_times_int (m_use_percent r) 100\<rfloor> = 50"
      unfolding up double_half_of_100 by simp
    have e2: "\<lfloor>double_times_int (m_validation_percent r) 50\<rfloor> = 10"
      unfolding vp double_fifth_of_50 by simp
    have ne1: "m_use_percent r \<noteq> -1" by (subst up) simp
    have ne2: "m_validation_percent r \<noteq> -1" by (subst vp) simp
    have l1: "length (subset_s1 shuffle r) = 50"
      by (simp add: subset_s1_def nset ne1 l0 e1)
    have u: "subset_unused_count shuffle r = 10"
      by (simp add: subset_unused_count_def ne2 l1 e2)
    have "select_subset_of_data shuffle r
                  = Inr (r\<lparr>m_shuffled_indices :=
                             (if m_first_n r then id else sort)
                               (take (length (subset_s1 shuffle r) - subset_unused_count shuffle r)
                                  (subset_s1 shuffle r)),
                           m_unused_indices :=
                             (if m_first_n r then id else sort)
                               (if 0 < subset_unused_count shuffle r
                                then drop (length (subset_s1 shuffle r)
                                             - subset_unused_count shuffle r)
                                       (subset_s1 shuffle r)
                                else m_unused_indices r)\<rparr>)"
      using res h by simp
    then show ?thesis using l1 u by (simp add: length_fin)
  qed
  with res show ?thesis by blast
qed

theorem select_subset_of_data_steps_witness:
  "(\<exists>r'. select_subset_of_data rev reader_100 = Inr r'
          \<and> length (m_shuffled_indices r') = 40 \<and> length (m_unused_indices r') = 10)
   \<and> select_subset_of_data rev
        (reader_100\<lparr>m_max_sample_count := 101, m_max_sample_count_was_set := True\<rparr>)
       = Inl SubsetTooLarge"
proof -
  let ?big = "reader_100\<lparr>m_max_sample_count := 101, m_max_sample_count_was_set := True\<rparr>"
  have p: "percent_ok (m_use_percent reader_100)"
    "percent_ok (m_validation_percent reader_100)"
    "length (subset_s0 rev reader_100) < 2 ^ 31"
    by (simp_all add: reader_100_def reader_example_def percent_ok_def subset_s0_def)
  have h: "length (subset_s0 rev reader_100) = 100 \<and> \<not> m_max_sample_count_was_set reader_100
            \<and> m_use_percent reader_100 = 1 / 2
            \<and> m_validation_percent reader_100 = 3602879701896397 / 18014398509481984"
    by (simp add: reader_100_def reader_example_def subset_s0_def)
  have p': "percent_ok (m_use_percent ?big)" "percent_ok (m_validation_percent ?big)"
    "length (subset_s0 rev ?big) < 2 ^ 31"
    by (simp_all add: reader_100_def reader_example_def percent_ok_def subset_s0_def)
  have h': "m_max_sample_count_was_set ?big
            \<and> length (subset_s0 rev ?big) < m_max_sample_count ?big"
    by (simp add: reader_100_def reader_example_def subset_s0_def)
  from select_subset_of_data_steps [OF p] h
  have "\<exists>r'. select_subset_of_data rev reader_100 = Inr r'
          \<and> length (m_shuffled_indices r') = 40 \<and> length (m_unused_indices r') = 10"
    by blast
  moreover from select_subset_of_data_steps [OF p'] h'
  have "select_subset_of_data rev ?big = Inl SubsetTooLarge" by blast
  ultimately show ?thesis by blast
qed

section \<open>Checkpoint round trip\<close>

lemma int_uint64_round_trip:
  assumes "is_int32 i"
  shows "uint64_to_int (int_to_uint64 i) = i"
proof -
  have "int (int_to_uint64 i) = i mod 2 ^ 64" by (simp add: int_to_uint64_def)
  then have "(int (int_to_uint64 i) + 2 ^ 31) mod 2 ^ 32 = (i mod 2 ^ 64 + 2 ^ 31) mod 2 ^ 32"
    by simp
  also have "\<dots> = (i mod 2 ^ 64 mod 2 ^ 32 + 2 ^ 31) mod 2 ^ 32"
    by (simp add: mod_add_left_eq)
  also have "i mod 2 ^ 64 mod 2 ^ 32 = i mod 2 ^ 32"
    by (rule mod_mod_cancel) simp
  also have "(i mod 2 ^ 32 + 2 ^ 31) mod 2 ^ 32 = (i + 2 ^ 31) mod 2 ^ 32"
    by (simp add: mod_add_left_eq)
  also have "\<dots> = i + 2 ^ 31"
    using assms by (simp add: is_int32_def)
  finally show ?thesis by (simp add: uint64_to_int_def)
qed

lemma int_to_uint64_small: "n < 2 ^ 31 \<Longrightarrow> int_to_uint64 (int n) = n"
  by (simp add: int_to_uint64_def)

lemma is_int32_small: "n < 2 ^ 31 \<Longrightarrow> is_int32 (int n)"
  by (simp add: is_int32_def)

lemma snprintf_fieldname_short:
  "length name + length suffix \<le> 1023 \<Longrightarrow> snprintf_fieldname name suffix = name @ suffix"
  by (simp add: snprintf_fieldname_def)

lemma save_world_other_ranks:
  "0 < rank \<Longrightarrow> train (save_world p name rank rs) = train p"
  by (induction rs arbitrary: p rank) (simp_all add: saveToCheckpointShared_def)

lemma resize_nonroot_length: "length (resize_nonroot s k w) = length w"
  by (induction w arbitrary: k) simp_all

lemma MPI_Bcast_length: "length (MPI_Bcast g pt k w) = length w"
  by (simp add: MPI_Bcast_def)

lemma resize_nonroot_fields:
  "r \<in> set (resize_nonroot s k w) \<Longrightarrow>
     \<exists>r0 \<in> set w. m_current_pos r = m_current_pos r0
        \<and> m_current_mini_batch_idx r = m_current_mini_batch_idx r0"
  by (induction w arbitrary: k) (auto split: if_splits)

lemma resize_nonroot_shuffled:
  "r \<in> set (resize_nonroot s k w) \<Longrightarrow> 0 < k \<Longrightarrow>
     length (m_shuffled_indices r) = int_to_uint64 s"
  by (induction w arbitrary: k) (auto simp: resize_def)

lemma train_after_save:
  assumes "length name \<le> 1000"
  shows "train (save_world p name 0 (r0 # rest)) =
     (train p)
       (name @ ''_current_mini_batch_idx'' \<mapsto> U64 (int_to_uint64 (m_current_mini_batch_idx r0)),
        name @ ''_data_size'' \<mapsto>
          U64 (int_to_uint64 (size_t_to_int (length (m_shuffled_indices r0)))),
        name @ ''_data_position'' \<mapsto> U64 (int_to_uint64 (m_current_pos r0)),
        name @ ''_data_indices'' \<mapsto>
          I32_contig (take (int_to_uint64 (size_t_to_int (length (m_shuffled_indices r0))))
                        (m_shuffled_indices r0)))"
  using assms
  by (simp add: save_world_other_ranks saveToCheckpointShared_def Let_def write_uint64_def
      write_int32_contig_def snprintf_fieldname_short)

lemma load_rank0_after_save:
  assumes "length name \<le> 1000"
    and "is_int32 (m_current_pos r0)" and "is_int32 (m_current_mini_batch_idx r0)"
    and "length (m_shuffled_indices r0) < 2 ^ 31"
  shows "load_rank0 ((save_world p name 0 (r0 # rest))\<lparr>get_rank := 0\<rparr>) name r =
     Some (r\<lparr>m_current_mini_batch_idx := m_current_mini_batch_idx r0,
             m_current_pos := m_current_pos r0,
             m_shuffled_indices := m_shuffled_indices r0\<rparr>)"
proof -
  let ?p = "(save_world p name 0 (r0 # rest))\<lparr>get_rank := 0\<rparr>"
  let ?n = "length (m_shuffled_indices r0)"
  have sz: "size_t_to_int ?n = int ?n" "int_to_uint64 (int ?n) = ?n"
    "uint64_to_int ?n = int ?n"
    using assms(4) int_uint64_round_trip [OF is_int32_small [OF assms(4)]]
    by (simp_all add: size_t_to_int_small int_to_uint64_small)
  have r1: "read_uint64 ?p (snprintf_fieldname name ''_current_mini_batch_idx'')
              = Some (int_to_uint64 (m_current_mini_batch_idx r0))"
    using assms(1) by (simp add: read_uint64_def train_after_save snprintf_fieldname_short
        del: save_world.simps)
  have r2: "read_uint64 ?p (snprintf_fieldname name ''_data_size'') = Some ?n"
    using assms(1) by (simp add: read_uint64_def train_after_save snprintf_fieldname_short sz
        del: save_world.simps)
  have r3: "read_uint64 ?p (snprintf_fieldname name ''_data_position'')
              = Some (int_to_uint64 (m_current_pos r0))"
    using assms(1) by (simp add: read_uint64_def train_after_save snprintf_fieldname_short
        del: save_world.simps)
  have r4: "read_int32_contig ?p (snprintf_fieldname name ''_data_indices'') ?n
              = Some (m_shuffled_indices r0)"
    using assms(1)
    by (simp add: read_int32_contig_def train_after_save snprintf_fieldname_short sz
        del: save_world.simps)
  show ?thesis
    unfolding load_rank0_def r1 r2 r3
    by (simp add: Let_def sz r4 resize_def int_uint64_round_trip [OF assms(2)]
        int_uint64_round_trip [OF assms(3)] del: save_world.simps)
qed

text \<open>
  Claim C4. Let every process of a world call \<open>saveToCheckpointShared\<close> and then, on
  any later state of the readers, \<open>loadFromCheckpointShared\<close>, under a name that fits
  the 1024-byte field name buffer, and let the position and the minibatch index of
  rank 0 be \<open>int\<close> values and its index vector have fewer than \<open>2^31\<close> entries. Then
  the save writes exactly the four fields \<open>current_mini_batch_idx\<close>, \<open>data_size\<close>,
  \<open>data_position\<close> and \<open>data_indices\<close> (by rank 0), the load succeeds, and every
  process ends with the \<open>current_pos\<close>, the \<open>current_mini_batch_idx\<close> and the shuffled
  index vector that rank 0 had when it saved: the state rank 0 wrote is restored, and
  all ranks hold the same shuffling state.
\<close>

theorem checkpoint_round_trip:
  assumes "length name \<le> 1000"
    and "is_int32 (m_current_pos r0)" and "is_int32 (m_current_mini_batch_idx r0)"
    and "length (m_shuffled_indices r0) < 2 ^ 31"
  shows "dom (train (save_world p name 0 (r0 # rest))) = dom (train p) \<union>
           {name @ ''_current_mini_batch_idx'', name @ ''_data_size'',
            name @ ''_data_position'', name @ ''_data_indices''}
       \<and> (\<exists>w. loadFromCheckpointShared (save_world p name 0 (r0 # rest)) name (r0' # rest')
               = Some (True, w)
           \<and> length w = length (r0' # rest')
           \<and> (\<forall>r \<in> set w. m_current_pos r = m_current_pos r0
                 \<and> m_current_mini_batch_idx r = m_current_mini_batch_idx r0
                 \<and> m_shuffled_indices r = m_shuffled_indices r0))"
proof -
  let ?n = "length (m_shuffled_indices r0)"
  define q where "q = r0'\<lparr>m_current_mini_batch_idx := m_current_mini_batch_idx r0,
             m_current_pos := m_current_pos r0,
             m_shuffled_indices := m_shuffled_indices r0\<rparr>"
  define w2 where "w2 = MPI_Bcast m_current_mini_batch_idx
                          (\<lambda>v r. r\<lparr>m_current_mini_batch_idx := v\<rparr>) 0 (q # rest')"
  define w3 where "w3 = MPI_Bcast m_current_pos (\<lambda>v r. r\<lparr>m_current_pos := v\<rparr>) 0 w2"
  define w4 where "w4 = resize_nonroot (int ?n) 0 w3"
  define w5 where "w5 = MPI_Bcast (\<lambda>r. take ?n (m_shuffled_indices r))
                          (\<lambda>vals r. r\<lparr>m_shuffled_indices :=
                                         vals @ drop (length vals) (m_shuffled_indices r)\<rparr>)
                          0 w4"
  have sz: "size_t_to_int ?n = int ?n" "int_to_uint64 (int ?n) = ?n"
    using assms(4) by (simp_all add: size_t_to_int_small int_to_uint64_small)
  have lq: "length (m_shuffled_indices q) = ?n" by (simp add: q_def)
  have w3_0: "w3 ! 0 = q" by (simp add: w3_def w2_def MPI_Bcast_def q_def)
  have w3_all: "\<forall>r \<in> set w3. m_current_pos r = m_current_pos r0
                 \<and> m_current_mini_batch_idx r = m_current_mini_batch_idx r0"
    by (auto simp: w3_def w2_def MPI_Bcast_def q_def)
  obtain t where w3_split: "w3 = q # t"
    using w3_0 by (cases w3) (auto simp: w3_def w2_def MPI_Bcast_def)
  have w4_split: "w4 = q # resize_nonroot (int ?n) (Suc 0) t"
    by (simp add: w4_def w3_split)
  have w4_all: "\<forall>r \<in> set w4. m_current_pos r = m_current_pos r0
                 \<and> m_current_mini_batch_idx r = m_current_mini_batch_idx r0
                 \<and> length (m_shuffled_indices r) = ?n"
  proof
    fix r assume r: "r \<in> set w4"
    from resize_nonroot_fields [OF r [unfolded w4_def]] w3_all
    have f: "m_current_pos r = m_current_pos r0
                 \<and> m_current_mini_batch_idx r = m_current_mini_batch_idx r0" by auto
    from r w4_split have "r = q \<or> r \<in> set (resize_nonroot (int ?n) (Suc 0) t)" by auto
    then have "length (m_shuffled_indices r) = ?n"
    proof
      assume "r = q" then show ?thesis by (simp add: q_def)
    next
      assume "r \<in> set (resize_nonroot (int ?n) (Suc 0) t)"
      from resize_nonroot_shuffled [OF this] show ?thesis by (simp add: sz)
    qed
    with f show "m_current_pos r = m_current_pos r0
                 \<and> m_current_mini_batch_idx r = m_current_mini_batch_idx r0
                 \<and> length (m_shuffled_indices r) = ?n" by simp
  qed
  have w5_all: "\<forall>r \<in> set w5. m_current_pos r = m_current_pos r0
                 \<and> m_current_mini_batch_idx r = m_current_mini_batch_idx r0
                 \<and> m_shuffled_indices r = m_shuffled_indices r0"
    using w4_all by (auto simp: w5_def MPI_Bcast_def w4_split q_def)
  have len: "length w5 = length (r0' # rest')"
    by (simp add: w5_def w4_def w3_def w2_def MPI_Bcast_length resize_nonroot_length)
  have "loadFromCheckpointShared (save_world p name 0 (r0 # rest)) name (r0' # rest')
          = Some (True, w5)"
    unfolding loadFromCheckpointShared_def
    by (simp add: load_rank0_after_save [OF assms] q_def [symmetric] w2_def [symmetric]
        w3_def [symmetric] Let_def w3_0 lq sz w4_def [symmetric] w5_def [symmetric]
        del: save_world.simps)
  with len w5_all have "\<exists>w. loadFromCheckpointShared (save_world p name 0 (r0 # rest)) name (r0' # rest')
               = Some (True, w)
           \<and> length w = length (r0' # rest')
           \<and> (\<forall>r \<in> set w. m_current_pos r = m_current_pos r0
                 \<and> m_current_mini_batch_idx r = m_current_mini_batch_idx r0
                 \<and> m_shuffled_indices r = m_shuffled_indices r0)" by blast
  moreover have "dom (train (save_world p name 0 (r0 # rest))) = dom (train p) \<union>
           {name @ ''_current_mini_batch_idx'', name @ ''_data_size'',
            name @ ''_data_position'', name @ ''_data_indices''}"
    unfolding train_after_save [OF assms(1)] by auto
  ultimately show ?thesis by (rule conjI [rotated])
qed

theorem checkpoint_round_trip_witness:
  "\<exists>w. loadFromCheckpointShared
           (save_world persist_empty ''rd'' 0
              [reader_23\<lparr>m_current_pos := 20, m_current_mini_batch_idx := 2\<rparr>, reader_example])
           ''rd'' [reader_100, reader_example]
         = Some (True, w)
       \<and> length w = 2
       \<and> (\<forall>r \<in> set w. m_current_pos r = 20 \<and> m_current_mini_batch_idx r = 2
              \<and> m_shuffled_indices r = map int [0..<23])"
proof -
  let ?r = "reader_23\<lparr>m_current_pos := 20, m_current_mini_batch_idx := 2\<rparr>"
  have a: "length ''rd'' \<le> 1000" by simp
  have b: "is_int32 (m_current_pos ?r)" by (simp add: is_int32_def)
  have c: "is_int32 (m_current_mini_batch_idx ?r)" by (simp add: is_int32_def)
  have d: "length (m_shuffled_indices ?r) < 2 ^ 31" by (simp add: reader_23_def)
  have e: "m_current_pos ?r = 20" "m_current_mini_batch_idx ?r = 2"
    "m_shuffled_indices ?r = map int [0..<23]" "length [reader_100, reader_example] = 2"
    by (simp_all add: reader_23_def)
  show ?thesis
    using checkpoint_round_trip
      [OF a b c d, of persist_empty "[reader_example]" reader_100 "[reader_example]",
       THEN conjunct2]
    unfolding e .
qed

section \<open>The allreduce computes the sum on every rank\<close>

subsection \<open>Matrices\<close>

lemma mat_shape_length: "mat_shape h w m \<Longrightarrow> length (Buffer m) = w"
  by (simp add: mat_shape_def)

lemma mat_shape_height: "mat_shape h w m \<Longrightarrow> Height m = h"
  by (simp add: mat_shape_def)

lemma mat_shape_width: "mat_shape h w m \<Longrightarrow> Width m = w"
  by (simp add: mat_shape_def Width_def)

lemma mat_shape_col: "mat_shape h w m \<Longrightarrow> j < w \<Longrightarrow> length (Buffer m ! j) = h"
  by (simp add: mat_shape_def)

lemma mat_shapeI:
  "Height m = h \<Longrightarrow> length (Buffer m) = w \<Longrightarrow> (\<And>j. j < w \<Longrightarrow> length (Buffer m ! j) = h)
     \<Longrightarrow> mat_shape h w m"
  by (auto simp: mat_shape_def in_set_conv_nth)

lemma mat_eqI:
  fixes A B :: "'a Mat"
  assumes "mat_shape h w A" and "mat_shape h w B"
    and "\<And>j i. j < w \<Longrightarrow> i < h \<Longrightarrow> Buffer A ! j ! i = Buffer B ! j ! i"
  shows "A = B"
proof -
  have "Buffer A = Buffer B"
  proof (rule nth_equalityI)
    show "length (Buffer A) = length (Buffer B)" using assms(1,2) by (simp add: mat_shape_def)
  next
    fix j assume "j < length (Buffer A)"
    then have j: "j < w" using assms(1) by (simp add: mat_shape_def)
    show "Buffer A ! j = Buffer B ! j"
    proof (rule nth_equalityI)
      show "length (Buffer A ! j) = length (Buffer B ! j)"
        using mat_shape_col [OF assms(1) j] mat_shape_col [OF assms(2) j] by simp
    next
      fix i assume "i < length (Buffer A ! j)"
      then have "i < h" using mat_shape_col [OF assms(1) j] by simp
      then show "Buffer A ! j ! i = Buffer B ! j ! i" using j by (rule assms(3) [rotated])
    qed
  qed
  moreover have "Height A = Height B" using assms(1,2) by (simp add: mat_shape_def)
  ultimately show ?thesis by simp
qed

lemma mat_add_shape:
  "mat_shape h w A \<Longrightarrow> mat_shape h w B \<Longrightarrow> mat_shape h w (mat_add A B)"
  by (rule mat_shapeI)
    (simp_all add: mat_add_def mat_shape_length mat_shape_col mat_shape_height)

lemma mat_add_nth:
  "mat_shape h w A \<Longrightarrow> mat_shape h w B \<Longrightarrow> j < w \<Longrightarrow> i < h \<Longrightarrow>
     Buffer (mat_add A B) ! j ! i = Buffer A ! j ! i + Buffer B ! j ! i"
  by (simp add: mat_add_def mat_shape_length mat_shape_col)

lemma view_ALL: "view m ALL_IR = m"
  by (simp add: view_def Width_def)

lemma sub_matrix_view:
  assumes "mat_shape h w m"
  shows "sub_matrix m ALL_IR cols = view m cols"
proof -
  have "take h c = c" if "c \<in> set (Buffer (view m cols))" for c
  proof -
    from that have "c \<in> set (Buffer m)"
      by (auto simp: view_def dest: in_set_takeD in_set_dropD)
    then show ?thesis using assms by (simp add: mat_shape_def)
  qed
  then have "map (take h) (Buffer (view m cols)) = Buffer (view m cols)"
    by (simp add: map_idI)
  moreover have "Height (view m cols) = h" "Height m = h"
    using assms by (simp_all add: view_def mat_shape_def)
  ultimately show ?thesis by (simp add: sub_matrix_def Let_def)
qed

lemma view_IR_length:
  "hi \<le> length (Buffer m) \<Longrightarrow> length (Buffer (view m (IR lo hi))) = hi - lo"
  by (simp add: view_def)

lemma view_IR_nth:
  "hi \<le> length (Buffer m) \<Longrightarrow> j < hi - lo
     \<Longrightarrow> Buffer (view m (IR lo hi)) ! j = Buffer m ! (lo + j)"
  by (simp add: view_def)

lemma view_shape:
  assumes "mat_shape h w m" and "hi \<le> w"
  shows "mat_shape h (hi - lo) (view m (IR lo hi))"
proof (rule mat_shapeI)
  show "Height (view m (IR lo hi)) = h"
    using assms by (simp add: view_def mat_shape_height)
next
  show "length (Buffer (view m (IR lo hi))) = hi - lo"
    using assms by (simp add: view_IR_length mat_shape_length)
next
  fix j assume j: "j < hi - lo"
  then have "Buffer (view m (IR lo hi)) ! j = Buffer m ! (lo + j)"
    using assms by (simp add: view_IR_nth mat_shape_length)
  moreover have "lo + j < w" using j assms(2) by simp
  ultimately show "length (Buffer (view m (IR lo hi)) ! j) = h"
    using assms(1) by (simp add: mat_shape_col)
qed

lemma update_view_height: "Height (update_view m cols v) = Height m"
  by (simp add: update_view_def)

lemma update_view_length:
  "lo \<le> hi \<Longrightarrow> hi \<le> length (Buffer m) \<Longrightarrow> length (Buffer v) = hi - lo \<Longrightarrow>
     length (Buffer (update_view m (IR lo hi) v)) = length (Buffer m)"
  by (simp add: update_view_def)

lemma update_view_nth:
  assumes "lo \<le> hi" and "hi \<le> length (Buffer m)" and "length (Buffer v) = hi - lo"
    and "j < length (Buffer m)"
  shows "Buffer (update_view m (IR lo hi) v) ! j =
           (if lo \<le> j \<and> j < hi then Buffer v ! (j - lo) else Buffer m ! j)"
proof -
  have l: "length (take lo (Buffer m)) = lo" using assms by simp
  show ?thesis
  proof (cases "j < lo")
    case True
    then show ?thesis using assms by (simp add: update_view_def nth_append)
  next
    case False
    show ?thesis
    proof (cases "j < hi")
      case True
      with False have "j - lo < hi - lo" by arith
      with True False assms show ?thesis by (simp add: update_view_def nth_append)
    next
      case nh: False
      with False assms(1) have a: "\<not> j - lo < hi - lo" "hi + (j - lo - (hi - lo)) = j"
        by arith+
      with nh False assms show ?thesis
        by (simp add: update_view_def nth_append)
    qed
  qed
qed

lemma view_cong:
  fixes A B :: "'a Mat"
  assumes "Height A = Height B" and "length (Buffer A) = length (Buffer B)"
    and "hi \<le> length (Buffer A)"
    and "\<And>j. lo \<le> j \<Longrightarrow> j < hi \<Longrightarrow> Buffer A ! j = Buffer B ! j"
  shows "view A (IR lo hi) = view B (IR lo hi)"
proof -
  have "Buffer (view A (IR lo hi)) = Buffer (view B (IR lo hi))"
  proof (rule nth_equalityI)
    show "length (Buffer (view A (IR lo hi))) = length (Buffer (view B (IR lo hi)))"
      using assms by (simp add: view_IR_length)
  next
    fix j assume "j < length (Buffer (view A (IR lo hi)))"
    then have j: "j < hi - lo" using assms by (simp add: view_IR_length)
    then show "Buffer (view A (IR lo hi)) ! j = Buffer (view B (IR lo hi)) ! j"
      using assms by (simp add: view_IR_nth)
  qed
  moreover have "Height (view A (IR lo hi)) = Height (view B (IR lo hi))"
    using assms(1) by (simp add: view_def)
  ultimately show ?thesis by simp
qed

subsection \<open>Slices\<close>

lemma length_slice_lengths: "length (slice_lengths p w) = p"
  by (simp add: slice_lengths_def Let_def)

lemma partial_sum_from_length: "length (partial_sum_from a xs) = length xs"
  by (induction xs arbitrary: a) simp_all

lemma partial_sum_from_nth:
  "i < length xs \<Longrightarrow> partial_sum_from a xs ! i = a + sum_list (take (Suc i) xs)"
proof (induction xs arbitrary: a i)
  case Nil
  then show ?case by simp
next
  case (Cons x xs)
  then show ?case by (cases i) simp_all
qed

lemma slice_ends_nth: "i < p \<Longrightarrow> slice_ends p w ! i = slice_hi p w i"
  by (simp add: slice_ends_def partial_sum_def partial_sum_from_nth slice_hi_def
      length_slice_lengths)

lemma slice_hi_lo: "i < p \<Longrightarrow> slice_hi p w i = slice_lo p w i + slice_lengths p w ! i"
  by (simp add: slice_hi_def slice_lo_def take_Suc_conv_app_nth length_slice_lengths)

lemma slice_range_eq: "i < p \<Longrightarrow> slice_range p w i = IR (slice_lo p w i) (slice_hi p w i)"
  by (simp add: slice_range_def slice_ends_nth slice_hi_lo)

lemma sum_list_take_mono:
  fixes xs :: "nat list"
  assumes "k \<le> k'"
  shows "sum_list (take k xs) \<le> sum_list (take k' xs)"
proof -
  have "take k' xs = take k xs @ take (k' - k) (drop k xs)"
    using assms by (metis le_add_diff_inverse take_add)
  then show ?thesis by simp
qed

lemma slice_lo_le_hi: "slice_lo p w i \<le> slice_hi p w i"
  unfolding slice_lo_def slice_hi_def by (rule sum_list_take_mono) simp

lemma slice_hi_le_lo: "i < i' \<Longrightarrow> slice_hi p w i \<le> slice_lo p w i'"
  unfolding slice_lo_def slice_hi_def by (rule sum_list_take_mono) simp

lemma sum_list_slice_lengths:
  assumes "0 < p"
  shows "sum_list (slice_lengths p w) = w"
proof -
  let ?c = "w div p" and ?r = "w mod p"
  have "sum_list (slice_lengths p w) = (\<Sum>i = 0..<p. if i < ?r then ?c + 1 else ?c)"
    by (simp add: slice_lengths_def Let_def interv_sum_list_conv_sum_set_nat)
  also have "\<dots> = (\<Sum>i = 0..<p. ?c + (if i < ?r then 1 else 0))"
    by (rule sum.cong) simp_all
  also have "\<dots> = (\<Sum>i = 0..<p. ?c) + (\<Sum>i = 0..<p. if i < ?r then 1 else 0)"
    by (rule sum.distrib)
  also have "(\<Sum>i = 0..<p. if i < ?r then 1 else 0) = card {i \<in> {0..<p}. i < ?r}"
    by (simp add: sum.If_cases Int_def)
  also have "{i \<in> {0..<p}. i < ?r} = {0..<?r}"
  proof -
    have "?r < p" using assms by simp
    then show ?thesis by auto
  qed
  finally show ?thesis by (simp add: mult.commute)
qed

lemma slice_hi_le_width: "0 < p \<Longrightarrow> slice_hi p w i \<le> w"
proof -
  assume p: "0 < p"
  have "sum_list (take (Suc i) (slice_lengths p w)) \<le> sum_list (take p (slice_lengths p w))"
  proof (cases "Suc i \<le> p")
    case True
    then show ?thesis by (rule sum_list_take_mono)
  next
    case False
    then show ?thesis by (simp add: length_slice_lengths)
  qed
  then show ?thesis using sum_list_slice_lengths [OF p, of w]
    by (simp add: slice_hi_def length_slice_lengths)
qed

lemma sum_list_cover:
  fixes xs :: "nat list"
  shows "j < sum_list xs \<Longrightarrow>
    \<exists>i < length xs. sum_list (take i xs) \<le> j \<and> j < sum_list (take (Suc i) xs)"
proof (induction xs rule: rev_induct)
  case Nil
  then show ?case by simp
next
  case (snoc x xs)
  show ?case
  proof (cases "j < sum_list xs")
    case True
    from snoc.IH [OF True] obtain i where "i < length xs"
      "sum_list (take i xs) \<le> j" "j < sum_list (take (Suc i) xs)" by blast
    then show ?thesis by (intro exI [of _ i]) simp
  next
    case False
    with snoc.prems show ?thesis by (intro exI [of _ "length xs"]) simp
  qed
qed

lemma slice_cover:
  assumes "0 < p" and "j < w"
  shows "\<exists>i < p. slice_lo p w i \<le> j \<and> j < slice_hi p w i"
  using sum_list_cover [of j "slice_lengths p w"] assms
  by (simp add: sum_list_slice_lengths length_slice_lengths slice_lo_def slice_hi_def)

lemma slice_disjoint:
  assumes "slice_lo p w i \<le> j" and "j < slice_hi p w i"
    and "slice_lo p w i' \<le> j" and "j < slice_hi p w i'"
  shows "i = i'"
proof (rule ccontr)
  assume "i \<noteq> i'"
  then consider "i < i'" | "i' < i" by arith
  then show False
  proof cases
    case 1
    from slice_hi_le_lo [OF 1, of p w] assms show False by simp
  next
    case 2
    from slice_hi_le_lo [OF 2, of p w] assms show False by simp
  qed
qed

subsection \<open>Sums over the ranks\<close>

lemma mod_eq_close:
  fixes a b p :: nat
  assumes "a mod p = b mod p" and "a \<le> b" and "b - a < p"
  shows "a = b"
proof -
  from assms(1,2) have "p dvd b - a"
    using mod_eq_dvd_iff_nat [of a b p] by simp
  with assms(3) have "b - a = 0" by (meson dvd_imp_le not_less zero_less_iff_neq_zero)
  with assms(2) show ?thesis by simp
qed

lemma ring_index_inj:
  fixes t t' r p :: nat
  assumes "t < p" and "t' < p" and "r < p"
    and "(r + p - t) mod p = (r + p - t') mod p"
  shows "t = t'"
proof (cases "t \<le> t'")
  case True
  have "r + p - t' = r + p - t"
    by (rule mod_eq_close [of _ p]) (use assms True in simp_all)
  with assms(1,2) show ?thesis by arith
next
  case False
  have "r + p - t = r + p - t'"
    by (rule mod_eq_close [of _ p]) (use assms False in simp_all)
  with assms(1,2) show ?thesis by arith
qed

lemma ring_index_sum:
  fixes f :: "nat \<Rightarrow> 'a::comm_monoid_add"
  assumes "r < p"
  shows "(\<Sum>t<p. f ((r + p - t) mod p)) = (\<Sum>q<p. f q)"
proof -
  let ?g = "\<lambda>t. (r + p - t) mod p"
  have inj: "inj_on ?g {..<p}"
    by (rule inj_onI) (use assms ring_index_inj in auto)
  have sub: "?g ` {..<p} \<subseteq> {..<p}" using assms by auto
  have "card (?g ` {..<p}) = card {..<p}" using inj by (rule card_image)
  with sub have img: "?g ` {..<p} = {..<p}" by (simp add: card_subset_eq)
  have "(\<Sum>q<p. f q) = (\<Sum>q \<in> ?g ` {..<p}. f q)" by (simp only: img)
  also have "\<dots> = (\<Sum>t<p. f (?g t))" using inj by (simp add: sum.reindex)
  finally show ?thesis by simp
qed

lemma ring_index_cover:
  fixes r q p :: nat
  assumes "r < p" and "q < p"
  shows "\<exists>t<p. (r + p - t) mod p = q"
proof -
  let ?g = "\<lambda>t. (r + p - t) mod p"
  have inj: "inj_on ?g {..<p}"
    by (rule inj_onI) (use assms ring_index_inj in auto)
  have sub: "?g ` {..<p} \<subseteq> {..<p}" using assms by auto
  have "card (?g ` {..<p}) = card {..<p}" using inj by (rule card_image)
  with sub have "?g ` {..<p} = {..<p}" by (simp add: card_subset_eq)
  with assms(2) have "q \<in> ?g ` {..<p}" by simp
  then show ?thesis by auto
qed

lemma foldl_mat_add:
  fixes A :: "'a::comm_monoid_add Mat"
  assumes "mat_shape h w A" and "\<forall>B \<in> set Bs. mat_shape h w B"
  shows "mat_shape h w (foldl mat_add A Bs) \<and>
         (\<forall>j < w. \<forall>i < h. Buffer (foldl mat_add A Bs) ! j ! i
              = Buffer A ! j ! i + (\<Sum>q < length Bs. Buffer (Bs ! q) ! j ! i))"
  using assms
proof (induction Bs arbitrary: A)
  case Nil
  then show ?case by simp
next
  case (Cons B Bs)
  have sB: "mat_shape h w B" and sBs: "\<forall>B \<in> set Bs. mat_shape h w B"
    using Cons.prems(2) by simp_all
  have sAB: "mat_shape h w (mat_add A B)" using Cons.prems(1) sB by (rule mat_add_shape)
  from Cons.IH [OF sAB sBs]
  have IH: "mat_shape h w (foldl mat_add (mat_add A B) Bs)"
    "\<And>j i. j < w \<Longrightarrow> i < h \<Longrightarrow> Buffer (foldl mat_add (mat_add A B) Bs) ! j ! i
        = Buffer (mat_add A B) ! j ! i + (\<Sum>q < length Bs. Buffer (Bs ! q) ! j ! i)"
    by simp_all
  show ?case
  proof (intro conjI allI impI)
    show "mat_shape h w (foldl mat_add A (B # Bs))" using IH(1) by simp
  next
    fix j i assume j: "j < w" and i: "i < h"
    have "Buffer (foldl mat_add A (B # Bs)) ! j ! i
            = (Buffer A ! j ! i + Buffer B ! j ! i) + (\<Sum>q < length Bs. Buffer (Bs ! q) ! j ! i)"
      using IH(2) [OF j i] mat_add_nth [OF Cons.prems(1) sB j i] by simp
    also have "\<dots> = Buffer A ! j ! i + (\<Sum>q < length (B # Bs). Buffer ((B # Bs) ! q) ! j ! i)"
      by (simp add: sum.lessThan_Suc_shift add.assoc del: sum.lessThan_Suc)
    finally show "Buffer (foldl mat_add A (B # Bs)) ! j ! i
                    = Buffer A ! j ! i + (\<Sum>q < length (B # Bs). Buffer ((B # Bs) ! q) ! j ! i)" .
  qed
qed

lemma mat_sum_entries:
  fixes Ms :: "'a::comm_monoid_add Mat list"
  assumes "Ms \<noteq> []" and "\<forall>M \<in> set Ms. mat_shape h w M"
  shows "mat_shape h w (mat_sum Ms)"
    and "j < w \<Longrightarrow> i < h \<Longrightarrow> Buffer (mat_sum Ms) ! j ! i = (\<Sum>q < length Ms. Buffer (Ms ! q) ! j ! i)"
proof -
  from assms(1) obtain M0 rest where Ms: "Ms = M0 # rest" by (cases Ms) auto
  have s0: "mat_shape h w M0" and sr: "\<forall>B \<in> set rest. mat_shape h w B"
    using assms(2) Ms by simp_all
  note f = foldl_mat_add [OF s0 sr]
  show "mat_shape h w (mat_sum Ms)" using f by (simp add: mat_sum_def Ms)
  show "Buffer (mat_sum Ms) ! j ! i = (\<Sum>q < length Ms. Buffer (Ms ! q) ! j ! i)" if "j < w" "i < h"
    using f that by (simp add: mat_sum_def Ms sum.lessThan_Suc_shift del: sum.lessThan_Suc)
qed

lemma ring_src_dst:
  fixes r p k :: nat
  assumes "r < p" and "k \<le> p"
  shows "((r + p - k) mod p + k) mod p = r"
proof -
  have "((r + p - k) mod p + k) mod p = ((r + p - k) + k) mod p"
    by (simp add: mod_add_left_eq)
  also have "(r + p - k) + k = r + p" using assms by simp
  finally show ?thesis using assms by simp
qed

lemma ring_src_neq:
  fixes r p k :: nat
  assumes "r < p" and "0 < k" and "k < p"
  shows "(r + p - k) mod p \<noteq> r"
proof
  assume "(r + p - k) mod p = r"
  then have "(r + p - k) mod p = (r + p - 0) mod p" using assms by simp
  from ring_index_inj [OF assms(3) _ assms(1) this] assms show False by simp
qed

lemma ring_src_shift:
  fixes r p k :: nat
  assumes "r < p" and "Suc k \<le> p"
  shows "((r + p - 1) mod p + p - k) mod p = (r + p - Suc k) mod p"
proof -
  have "(r + p - 1) mod p + p - k = (r + p - 1) mod p + (p - k)" using assms by simp
  then have "((r + p - 1) mod p + p - k) mod p = ((r + p - 1) + (p - k)) mod p"
    by (simp add: mod_add_left_eq)
  also have "(r + p - 1) + (p - k) = (r + p - Suc k) + p" using assms by simp
  finally show ?thesis by simp
qed

subsection \<open>The pairwise-exchange reduce-scatter\<close>

lemma send_sum_transforms:
  "mat_shape h w m \<Longrightarrow> send_transform sum_transforms m ALL_IR cols b = view m cols"
  by (simp add: sum_transforms_def sub_matrix_view)

lemma sum_transforms_sel:
  "update_view m cols (recv_transform sum_transforms buf dest) = update_view m cols buf"
  "recv_apply_transform sum_transforms buf dest = mat_add dest buf"
  by (simp_all add: sum_transforms_def update_view_def)

lemma rs_inv_init:
  fixes Ms :: "'a::comm_monoid_add Mat list"
  assumes "\<forall>M \<in> set Ms. mat_shape h w M"
  shows "rs_inv h w Ms 0 Ms"
  using assms by (simp add: rs_inv_def)

lemma rs_step:
  fixes Ms :: "'a::comm_monoid_add Mat list"
  assumes inv: "rs_inv h w Ms s mats" and s: "Suc s < length Ms"
  shows "rs_inv h w Ms (Suc s) (pe_reduce_scatter_step sum_transforms (Suc s) mats)"
proof -
  define p where "p = length Ms"
  have len: "length mats = p" using inv by (simp add: rs_inv_def p_def)
  have p0: "0 < p" using s by (cases Ms) (simp_all add: p_def)
  have shape: "\<And>r. r < p \<Longrightarrow> mat_shape h w (mats ! r)"
    using inv by (simp add: rs_inv_def p_def)
  have ent: "\<And>r j i. r < p \<Longrightarrow> j < w \<Longrightarrow> i < h \<Longrightarrow> Buffer (mats ! r) ! j ! i =
            (if slice_lo p w r \<le> j \<and> j < slice_hi p w r
             then sum (\<lambda>t. Buffer (Ms ! ((r + p - t) mod p)) ! j ! i) {..s}
             else Buffer (Ms ! r) ! j ! i)"
    using inv by (simp add: rs_inv_def p_def)
  have main: "mat_shape h w (pe_reduce_scatter_step sum_transforms (Suc s) mats ! r) \<and>
         (\<forall>j < w. \<forall>i < h. Buffer (pe_reduce_scatter_step sum_transforms (Suc s) mats ! r) ! j ! i =
            (if slice_lo p w r \<le> j \<and> j < slice_hi p w r
             then sum (\<lambda>t. Buffer (Ms ! ((r + p - t) mod p)) ! j ! i) {..Suc s}
             else Buffer (Ms ! r) ! j ! i))" if r: "r < p" for r
  proof -
    define src where "src = (r + p - Suc s) mod p"
    define lo where "lo = slice_lo p w r"
    define hi where "hi = slice_hi p w r"
    define new where "new = update_view (mats ! r) (IR lo hi)
                      (mat_add (view (mats ! r) (IR lo hi)) (view (mats ! src) (IR lo hi)))"
    have src: "src < p" using p0 by (simp add: src_def)
    have sk: "Suc s \<le> p" "0 < Suc s" "Suc s < p" using s by (simp_all add: p_def)
    have bk: "(src + Suc s) mod p = r"
      unfolding src_def using r sk(1) by (rule ring_src_dst)
    have neq: "src \<noteq> r" unfolding src_def using r sk(2,3) by (rule ring_src_neq)
    have lohi: "lo \<le> hi" "hi \<le> w"
      using slice_lo_le_hi [of p w r] slice_hi_le_width [OF p0, of w r]
      by (simp_all add: lo_def hi_def)
    have wr: "length (Buffer (mats ! r)) = w" "length (Buffer (mats ! src)) = w"
      using shape [OF r] shape [OF src] by (simp_all add: mat_shape_length)
    have step_r: "pe_reduce_scatter_step sum_transforms (Suc s) mats ! r = new"
      using r src bk wr
      by (simp add: pe_reduce_scatter_step_def Let_def len sum_transforms_sel Width_def
          send_sum_transforms [OF shape [OF src]]
          src_def [symmetric] slice_range_eq lo_def hi_def new_def)
    have v1: "mat_shape h (hi - lo) (view (mats ! r) (IR lo hi))"
      using shape [OF r] lohi(2) by (rule view_shape)
    have v2: "mat_shape h (hi - lo) (view (mats ! src) (IR lo hi))"
      using shape [OF src] lohi(2) by (rule view_shape)
    have va: "mat_shape h (hi - lo)
                (mat_add (view (mats ! r) (IR lo hi)) (view (mats ! src) (IR lo hi)))"
      using v1 v2 by (rule mat_add_shape)
    have new_len: "length (Buffer new) = w"
      unfolding new_def using lohi wr va
      by (simp add: update_view_length mat_shape_length)
    have new_nth: "Buffer new ! j = (if lo \<le> j \<and> j < hi
         then Buffer (mat_add (view (mats ! r) (IR lo hi)) (view (mats ! src) (IR lo hi))) ! (j - lo)
         else Buffer (mats ! r) ! j)" if "j < w" for j
      unfolding new_def using lohi wr va that
      by (simp add: update_view_nth mat_shape_length)
    have in_slice: "Buffer new ! j ! i = Buffer (mats ! r) ! j ! i + Buffer (mats ! src) ! j ! i"
      if j: "lo \<le> j" "j < hi" and i: "i < h" for j i
    proof -
      have jl: "j - lo < hi - lo" using j by arith
      have "Buffer new ! j ! i
              = Buffer (mat_add (view (mats ! r) (IR lo hi)) (view (mats ! src) (IR lo hi))) ! (j - lo) ! i"
        using new_nth [of j] j lohi by simp
      also have "\<dots> = Buffer (view (mats ! r) (IR lo hi)) ! (j - lo) ! i
                       + Buffer (view (mats ! src) (IR lo hi)) ! (j - lo) ! i"
        using v1 v2 jl i by (rule mat_add_nth)
      also have "\<dots> = Buffer (mats ! r) ! j ! i + Buffer (mats ! src) ! j ! i"
        using jl j lohi wr by (simp add: view_IR_nth)
      finally show ?thesis .
    qed
    show ?thesis
    proof (intro conjI allI impI)
      show "mat_shape h w (pe_reduce_scatter_step sum_transforms (Suc s) mats ! r)"
        unfolding step_r
      proof (rule mat_shapeI)
        show "Height new = h"
          using shape [OF r] by (simp add: new_def update_view_height mat_shape_height)
      next
        show "length (Buffer new) = w" by (rule new_len)
      next
        fix j assume j: "j < w"
        show "length (Buffer new ! j) = h"
        proof (cases "lo \<le> j \<and> j < hi")
          case True
          then have "j - lo < hi - lo" by arith
          then show ?thesis using new_nth [OF j] True va by (simp add: mat_shape_col)
        next
          case False
          with new_nth [OF j] have "Buffer new ! j = Buffer (mats ! r) ! j" by auto
          then show ?thesis using shape [OF r] j by (simp add: mat_shape_col)
        qed
      qed
    next
      fix j i assume j: "j < w" and i: "i < h"
      show "Buffer (pe_reduce_scatter_step sum_transforms (Suc s) mats ! r) ! j ! i =
            (if slice_lo p w r \<le> j \<and> j < slice_hi p w r
             then sum (\<lambda>t. Buffer (Ms ! ((r + p - t) mod p)) ! j ! i) {..Suc s}
             else Buffer (Ms ! r) ! j ! i)"
      proof (cases "lo \<le> j \<and> j < hi")
        case True
        then have notsrc: "\<not> (slice_lo p w src \<le> j \<and> j < slice_hi p w src)"
          using slice_disjoint [of p w src j r] neq by (auto simp: lo_def hi_def)
        have "Buffer new ! j ! i = Buffer (mats ! r) ! j ! i + Buffer (mats ! src) ! j ! i"
          using True i by (simp add: in_slice)
        also have "Buffer (mats ! r) ! j ! i = sum (\<lambda>t. Buffer (Ms ! ((r + p - t) mod p)) ! j ! i) {..s}"
          using ent [OF r j i] True by (simp add: lo_def hi_def)
        also have "Buffer (mats ! src) ! j ! i = Buffer (Ms ! src) ! j ! i"
          using ent [OF src j i] notsrc by simp
        finally show ?thesis using True
          by (simp add: step_r lo_def hi_def src_def)
      next
        case False
        with new_nth [OF j] have n: "Buffer new ! j = Buffer (mats ! r) ! j" by auto
        have c: "\<not> (slice_lo p w r \<le> j \<and> j < slice_hi p w r)"
          using False by (simp add: lo_def hi_def)
        have "Buffer (mats ! r) ! j ! i = Buffer (Ms ! r) ! j ! i"
          using ent [OF r j i] c by (simp only: if_False)
        then show ?thesis unfolding step_r n using c by (simp only: if_False)
      qed
    qed
  qed
  show ?thesis
    unfolding rs_inv_def p_def [symmetric]
  proof (intro conjI allI impI)
    show "length (pe_reduce_scatter_step sum_transforms (Suc s) mats) = p"
      by (simp add: pe_reduce_scatter_step_def Let_def len)
  qed (use main in blast)+
qed

lemma rs_fold:
  fixes Ms :: "'a::comm_monoid_add Mat list"
  assumes "\<forall>M \<in> set Ms. mat_shape h w M" and "s < length Ms"
  shows "rs_inv h w Ms s (fold (pe_reduce_scatter_step sum_transforms) [1..<Suc s] Ms)"
  using assms(2)
proof (induction s)
  case 0
  show ?case using rs_inv_init [OF assms(1)] by simp
next
  case (Suc s)
  then have IH: "rs_inv h w Ms s (fold (pe_reduce_scatter_step sum_transforms) [1..<Suc s] Ms)"
    by simp
  have "[1..<Suc (Suc s)] = [1..<Suc s] @ [Suc s]" by simp
  then have "fold (pe_reduce_scatter_step sum_transforms) [1..<Suc (Suc s)] Ms
      = pe_reduce_scatter_step sum_transforms (Suc s)
          (fold (pe_reduce_scatter_step sum_transforms) [1..<Suc s] Ms)"
    by (simp only: fold_append fold_simps comp_apply)
  then show ?case using rs_step [OF IH Suc.prems] by simp
qed

lemma reduce_scatter_result:
  fixes Ms :: "'a::comm_monoid_add Mat list"
  assumes ne: "Ms \<noteq> []" and sh: "\<forall>M \<in> set Ms. mat_shape h w M"
  defines "mats \<equiv> fold (pe_reduce_scatter_step sum_transforms) [1..<length Ms] Ms"
  shows "length mats = length Ms"
    and "r < length Ms \<Longrightarrow> mat_shape h w (mats ! r)"
    and "r < length Ms \<Longrightarrow> slice_lo (length Ms) w r \<le> j \<Longrightarrow> j < slice_hi (length Ms) w r
          \<Longrightarrow> Buffer (mats ! r) ! j = Buffer (mat_sum Ms) ! j"
proof -
  define p where "p = length Ms"
  have p0: "0 < p" using ne by (simp add: p_def)
  have e: "Suc (p - 1) = p" using p0 by simp
  have "rs_inv h w Ms (p - 1) (fold (pe_reduce_scatter_step sum_transforms) [1..<Suc (p - 1)] Ms)"
    using sh by (rule rs_fold) (use p0 in \<open>simp add: p_def\<close>)
  then have inv: "rs_inv h w Ms (p - 1) mats" unfolding e by (simp only: mats_def p_def)
  show "length mats = length Ms" using inv by (simp add: rs_inv_def)
  show sr: "mat_shape h w (mats ! r)" if "r < length Ms" for r
    using inv that by (simp add: rs_inv_def)
  show "Buffer (mats ! r) ! j = Buffer (mat_sum Ms) ! j"
    if r: "r < length Ms" and j: "slice_lo (length Ms) w r \<le> j" "j < slice_hi (length Ms) w r"
  proof -
    have jw: "j < w" using j(2) slice_hi_le_width [OF p0, of w r] by (simp add: p_def)
    have sR: "mat_shape h w (mat_sum Ms)" using ne sh by (rule mat_sum_entries(1))
    show ?thesis
    proof (rule nth_equalityI)
      show "length (Buffer (mats ! r) ! j) = length (Buffer (mat_sum Ms) ! j)"
        using sr [OF r] sR jw by (simp add: mat_shape_col)
    next
      fix i assume "i < length (Buffer (mats ! r) ! j)"
      then have i: "i < h" using sr [OF r] jw by (simp add: mat_shape_col)
      have "Buffer (mats ! r) ! j ! i = sum (\<lambda>t. Buffer (Ms ! ((r + p - t) mod p)) ! j ! i) {..p - 1}"
        using inv r jw i j by (simp add: rs_inv_def p_def)
      also have "{..p - 1} = {..<p}" using p0 by auto
      also have "sum (\<lambda>t. Buffer (Ms ! ((r + p - t) mod p)) ! j ! i) {..<p} = (\<Sum>q<p. Buffer (Ms ! q) ! j ! i)"
        using r by (intro ring_index_sum) (simp add: p_def)
      also have "\<dots> = Buffer (mat_sum Ms) ! j ! i"
        using mat_sum_entries(2) [OF ne sh jw i] by (simp add: p_def)
      finally show "Buffer (mats ! r) ! j ! i = Buffer (mat_sum Ms) ! j ! i" .
    qed
  qed
qed

subsection \<open>The ring allgather\<close>

lemma recv_into_slice:
  fixes R :: "'a Mat"
  assumes sm: "mat_shape h w m" and sR: "mat_shape h w R" and p0: "0 < p" and d: "d < p"
  defines "new \<equiv> update_view m (slice_range p w d) (view R (slice_range p w d))"
  shows "mat_shape h w new"
    and "slice_lo p w d \<le> j \<Longrightarrow> j < slice_hi p w d \<Longrightarrow> Buffer new ! j = Buffer R ! j"
    and "j < w \<Longrightarrow> \<not> (slice_lo p w d \<le> j \<and> j < slice_hi p w d)
          \<Longrightarrow> Buffer new ! j = Buffer m ! j"
proof -
  define lo where "lo = slice_lo p w d"
  define hi where "hi = slice_hi p w d"
  have rng: "slice_range p w d = IR lo hi" using d by (simp add: slice_range_eq lo_def hi_def)
  have lohi: "lo \<le> hi" "hi \<le> w"
    using slice_lo_le_hi [of p w d] slice_hi_le_width [OF p0, of w d]
    by (simp_all add: lo_def hi_def)
  have lm: "length (Buffer m) = w" and lR: "length (Buffer R) = w"
    using sm sR by (simp_all add: mat_shape_length)
  have lv: "length (Buffer (view R (IR lo hi))) = hi - lo"
    using lohi lR by (simp add: view_IR_length)
  have new_nth: "Buffer new ! j =
      (if lo \<le> j \<and> j < hi then Buffer (view R (IR lo hi)) ! (j - lo) else Buffer m ! j)"
    if "j < w" for j
    unfolding new_def rng using lohi lm lv that by (simp add: update_view_nth)
  have inside: "Buffer new ! j = Buffer R ! j" if j: "lo \<le> j" "j < hi" for j
  proof -
    have jl: "j - lo < hi - lo" "lo + (j - lo) = j" "j < w" using j lohi by arith+
    have "Buffer new ! j = Buffer (view R (IR lo hi)) ! (j - lo)"
      using new_nth [OF jl(3)] j by simp
    also have "\<dots> = Buffer R ! (lo + (j - lo))"
      using lohi lR jl(1) by (simp add: view_IR_nth)
    finally show ?thesis using jl(2) by simp
  qed
  show "Buffer new ! j = Buffer R ! j" if "slice_lo p w d \<le> j" "j < slice_hi p w d"
    using inside that by (simp add: lo_def hi_def)
  show outside: "Buffer new ! j = Buffer m ! j"
    if "j < w" "\<not> (slice_lo p w d \<le> j \<and> j < slice_hi p w d)" for j
    using new_nth [OF that(1)] that(2) by (auto simp: lo_def hi_def)
  show "mat_shape h w new"
  proof (rule mat_shapeI)
    show "Height new = h"
      using sm by (simp add: new_def update_view_height mat_shape_height)
  next
    show "length (Buffer new) = w"
      unfolding new_def rng using lohi lm lv by (simp add: update_view_length)
  next
    fix j assume j: "j < w"
    show "length (Buffer new ! j) = h"
    proof (cases "lo \<le> j \<and> j < hi")
      case True
      then have "Buffer new ! j = Buffer R ! j" using inside by simp
      then show ?thesis using sR j by (simp add: mat_shape_col)
    next
      case False
      then have "Buffer new ! j = Buffer m ! j"
        using outside [OF j] by (simp add: lo_def hi_def)
      then show ?thesis using sm j by (simp add: mat_shape_col)
    qed
  qed
qed

lemma ag_first:
  fixes R :: "'a::comm_monoid_add Mat"
  assumes len: "length mats = p" and p0: "0 < p" and sR: "mat_shape h w R"
    and sh: "\<And>r. r < p \<Longrightarrow> mat_shape h w (mats ! r)"
    and own: "\<And>r j. r < p \<Longrightarrow> slice_lo p w r \<le> j \<Longrightarrow> j < slice_hi p w r
                \<Longrightarrow> Buffer (mats ! r) ! j = Buffer R ! j"
  shows "ag_inv h w R p 1 (pe_allgather_first sum_transforms mats)"
  unfolding ag_inv_def
proof (intro conjI allI impI)
  show "length (pe_allgather_first sum_transforms mats) = p"
    by (simp add: pe_allgather_first_def Let_def len)
next
  fix r assume r: "r < p"
  define src where "src = (r + p - Suc 0) mod p"
  have src: "src < p" using p0 by (simp add: src_def)
  have lR: "length (Buffer R) = w" using sR by (simp add: mat_shape_length)
  have buf: "view (mats ! src) (slice_range p w src) = view R (slice_range p w src)"
    unfolding slice_range_eq [OF src]
  proof (rule view_cong)
    show "Height (mats ! src) = Height R"
      using sh [OF src] sR by (simp add: mat_shape_height)
    show "length (Buffer (mats ! src)) = length (Buffer R)"
      using sh [OF src] lR by (simp add: mat_shape_length)
    show "slice_hi p w src \<le> length (Buffer (mats ! src))"
      using sh [OF src] slice_hi_le_width [OF p0, of w src] by (simp add: mat_shape_length)
    show "Buffer (mats ! src) ! j = Buffer R ! j"
      if "slice_lo p w src \<le> j" "j < slice_hi p w src" for j
      using own [OF src that] .
  qed
  have st: "pe_allgather_first sum_transforms mats ! r =
      (update_view (mats ! r) (slice_range p w src) (view R (slice_range p w src)),
       view R (slice_range p w src))"
    using r src sh [OF r] sh [OF src] buf
    by (simp add: pe_allgather_first_def Let_def len sum_transforms_sel Width_def
        send_sum_transforms [OF sh [OF src]] src_def [symmetric] mat_shape_length)
  note rs = recv_into_slice [OF sh [OF r] sR p0 src]
  show "mat_shape h w (fst (pe_allgather_first sum_transforms mats ! r))"
    unfolding st using rs(1) by simp
  show "snd (pe_allgather_first sum_transforms mats ! r)
          = view R (slice_range p w ((r + p - 1) mod p))"
    unfolding st by (simp add: src_def)
  fix t j assume t: "t \<le> 1"
    and j: "slice_lo p w ((r + p - t) mod p) \<le> j \<and> j < slice_hi p w ((r + p - t) mod p)"
  show "Buffer (fst (pe_allgather_first sum_transforms mats ! r)) ! j = Buffer R ! j"
  proof (cases "slice_lo p w src \<le> j \<and> j < slice_hi p w src")
    case True
    then show ?thesis unfolding st using rs(2) by simp
  next
    case False
    have "t = 0 \<or> t = 1" using t by arith
    then have t0: "(r + p - t) mod p = r" using False j r by (auto simp: src_def)
    have jw: "j < w" using j slice_hi_le_width [OF p0, of w "(r + p - t) mod p"] by simp
    have "Buffer (fst (pe_allgather_first sum_transforms mats ! r)) ! j = Buffer (mats ! r) ! j"
      unfolding st using rs(3) [OF jw False] by simp
    also have "\<dots> = Buffer R ! j" using own [OF r] j t0 by simp
    finally show ?thesis .
  qed
qed

lemma ag_step:
  fixes R :: "'a::comm_monoid_add Mat"
  assumes inv: "ag_inv h w R p k st" and p0: "0 < p" and sR: "mat_shape h w R"
    and k: "Suc k < p"
  shows "ag_inv h w R p (Suc k) (pe_allgather_step sum_transforms k st)"
  unfolding ag_inv_def
proof (intro conjI allI impI)
  have len: "length st = p" using inv by (simp add: ag_inv_def)
  show "length (pe_allgather_step sum_transforms k st) = p"
    by (simp add: pe_allgather_step_def Let_def len)
  fix r assume r: "r < p"
  define src where "src = (r + p - Suc 0) mod p"
  define d where "d = (r + p - Suc k) mod p"
  have src: "src < p" and d: "d < p" using p0 by (simp_all add: src_def d_def)
  have sm: "mat_shape h w (fst (st ! r))" using inv r by (simp add: ag_inv_def)
  have "snd (st ! src) = view R (slice_range p w ((src + p - k) mod p))"
    using inv src by (simp add: ag_inv_def)
  also have "(src + p - k) mod p = d"
    using ring_src_shift [of r p k] r k by (simp add: src_def d_def)
  finally have buf: "snd (st ! src) = view R (slice_range p w d)" .
  have dd: "(r + p - k - 1) mod p = d" by (simp add: d_def)
  have stp: "pe_allgather_step sum_transforms k st ! r =
      (update_view (fst (st ! r)) (slice_range p w d) (view R (slice_range p w d)),
       view R (slice_range p w d))"
    using r sm buf dd
    by (simp add: pe_allgather_step_def Let_def len sum_transforms_sel Width_def
        src_def [symmetric] mat_shape_length)
  note rs = recv_into_slice [OF sm sR p0 d]
  show "mat_shape h w (fst (pe_allgather_step sum_transforms k st ! r))"
    unfolding stp using rs(1) by simp
  show "snd (pe_allgather_step sum_transforms k st ! r)
          = view R (slice_range p w ((r + p - Suc k) mod p))"
    unfolding stp by (simp add: d_def)
  fix t j assume t: "t \<le> Suc k"
    and j: "slice_lo p w ((r + p - t) mod p) \<le> j \<and> j < slice_hi p w ((r + p - t) mod p)"
  show "Buffer (fst (pe_allgather_step sum_transforms k st ! r)) ! j = Buffer R ! j"
  proof (cases "slice_lo p w d \<le> j \<and> j < slice_hi p w d")
    case True
    then show ?thesis unfolding stp using rs(2) by simp
  next
    case False
    then have "t \<noteq> Suc k" using j by (auto simp: d_def)
    with t have tk: "t \<le> k" by simp
    have jw: "j < w" using j slice_hi_le_width [OF p0, of w "(r + p - t) mod p"] by simp
    have "Buffer (fst (pe_allgather_step sum_transforms k st ! r)) ! j = Buffer (fst (st ! r)) ! j"
      unfolding stp using rs(3) [OF jw False] by simp
    also have "\<dots> = Buffer R ! j" using inv r tk j by (simp add: ag_inv_def)
    finally show ?thesis .
  qed
qed

lemma ag_fold:
  fixes R :: "'a::comm_monoid_add Mat"
  assumes first: "ag_inv h w R p 1 first" and p0: "0 < p" and sR: "mat_shape h w R"
    and n: "n = 0 \<or> Suc n < p"
  shows "ag_inv h w R p (Suc n) (fold (pe_allgather_step sum_transforms) [1..<Suc n] first)"
  using n
proof (induction n)
  case 0
  show ?case using first by simp
next
  case (Suc n)
  then have lt: "Suc (Suc n) < p" by simp
  then have IH: "ag_inv h w R p (Suc n)
                   (fold (pe_allgather_step sum_transforms) [1..<Suc n] first)"
    using Suc.IH by simp
  have "[1..<Suc (Suc n)] = [1..<Suc n] @ [Suc n]" by simp
  then have "fold (pe_allgather_step sum_transforms) [1..<Suc (Suc n)] first
      = pe_allgather_step sum_transforms (Suc n)
          (fold (pe_allgather_step sum_transforms) [1..<Suc n] first)"
    by (simp only: fold_append fold_simps comp_apply)
  then show ?case using ag_step [OF IH p0 sR lt] by simp
qed

lemma pe_ring_allreduce_sum:
  fixes Ms :: "'a::comm_monoid_add Mat list"
  assumes ne: "Ms \<noteq> []" and sh: "\<forall>M \<in> set Ms. mat_shape h w M"
  shows "pe_ring_allreduce sum_transforms Ms = replicate (length Ms) (mat_sum Ms)"
proof -
  define p where "p = length Ms"
  define R where "R = mat_sum Ms"
  define mats where "mats = fold (pe_reduce_scatter_step sum_transforms) [1..<p] Ms"
  define first where "first = pe_allgather_first sum_transforms mats"
  define gathered where "gathered = fold (pe_allgather_step sum_transforms) [1..<p - 1] first"
  have p0: "0 < p" using ne by (simp add: p_def)
  have sR: "mat_shape h w R" unfolding R_def using ne sh by (rule mat_sum_entries(1))
  have rs1: "length mats = p"
    unfolding mats_def p_def by (rule reduce_scatter_result(1) [OF ne sh])
  have rs2: "mat_shape h w (mats ! r)" if "r < p" for r
    unfolding mats_def p_def by (rule reduce_scatter_result(2) [OF ne sh]) (use that p_def in simp)
  have rs3: "Buffer (mats ! r) ! j = Buffer R ! j" if "r < p" "slice_lo p w r \<le> j" "j < slice_hi p w r" for r j
    unfolding mats_def p_def R_def
    by (rule reduce_scatter_result(3) [OF ne sh]) (use that p_def in simp_all)
  have f1: "ag_inv h w R p 1 first"
    unfolding first_def using rs1 p0 sR rs2 rs3 by (rule ag_first)
  define n where "n = p - 2"
  have n: "n = 0 \<or> Suc n < p" by (auto simp: n_def)
  have up: "[1..<p - 1] = [1..<Suc n]"
  proof (cases "p = 1")
    case True
    then show ?thesis by (simp add: n_def)
  next
    case False
    with p0 have "p - 1 = Suc n" by (simp add: n_def)
    then show ?thesis by (simp only:)
  qed
  have inv: "ag_inv h w R p (Suc n) gathered"
    unfolding gathered_def up by (rule ag_fold [OF f1 p0 sR n])
  have res: "pe_ring_allreduce sum_transforms Ms = map fst gathered"
    by (simp add: pe_ring_allreduce_def Let_def gathered_def first_def mats_def p_def)
  have lg: "length gathered = p" using inv by (simp add: ag_inv_def)
  have each: "fst (gathered ! r) = R" if r: "r < p" for r
  proof (rule mat_eqI [OF _ sR])
    show "mat_shape h w (fst (gathered ! r))" using inv r by (simp add: ag_inv_def)
    fix j i assume j: "j < w"
    from slice_cover [OF p0 j] obtain q where q: "q < p"
      "slice_lo p w q \<le> j" "j < slice_hi p w q" by blast
    from ring_index_cover [OF r q(1)] obtain t where t: "t < p" "(r + p - t) mod p = q"
      by blast
    have "t \<le> Suc n" using t(1) by (simp add: n_def)
    then have "Buffer (fst (gathered ! r)) ! j = Buffer R ! j"
      using inv r q(2,3) t(2) unfolding ag_inv_def by blast
    then show "Buffer (fst (gathered ! r)) ! j ! i = Buffer R ! j ! i" by simp
  qed
  show ?thesis
    unfolding res p_def [symmetric] R_def [symmetric]
    by (rule nth_equalityI) (simp_all add: lg each)
qed

subsection \<open>Recursive doubling\<close>

lemma xor_pow2_less:
  fixes r :: nat
  assumes "r < 2 ^ n" and "k < n"
  shows "r XOR 2 ^ k < 2 ^ n"
proof -
  have "int r XOR 2 ^ k < 2 ^ n"
  proof (rule XOR_upper)
    show "0 \<le> int r" by simp
    show "int r < 2 ^ n" using assms(1) by (metis of_nat_less_iff of_nat_numeral of_nat_power)
    show "(2::int) ^ k < 2 ^ n" using assms(2) by simp
  qed
  then have "int (r XOR 2 ^ k) < int (2 ^ n)" by (simp add: of_nat_xor_eq)
  then show ?thesis by (simp only: of_nat_less_iff)
qed

lemma xor_pow2_div:
  fixes r :: nat
  shows "(r XOR 2 ^ k) div 2 ^ k = (r div 2 ^ k) XOR 1"
  unfolding drop_bit_eq_div [symmetric] by (simp add: drop_bit_xor drop_bit_exp_eq)

lemma xor_one_nat:
  fixes m :: nat
  shows "m XOR 1 = (if even m then m + 1 else m - 1)"
  using xor_one_eq [of m] by (cases "even m") auto

lemma div2_eq_iff:
  fixes x m :: nat
  shows "x div 2 = m div 2 \<longleftrightarrow> x = m \<or> x = m XOR 1"
  unfolding xor_one_nat by (cases "even m") presburger+

lemma xor_one_neq:
  fixes m :: nat
  shows "m XOR 1 \<noteq> m"
  unfolding xor_one_nat by (cases "even m") (auto elim: oddE)

lemma rd_block_split:
  fixes r p k :: nat
  shows "{q. q < p \<and> q div 2 ^ Suc k = r div 2 ^ Suc k}
           = {q. q < p \<and> q div 2 ^ k = r div 2 ^ k}
             \<union> {q. q < p \<and> q div 2 ^ k = (r XOR 2 ^ k) div 2 ^ k}"
    and "{q. q < p \<and> q div 2 ^ k = r div 2 ^ k}
             \<inter> {q. q < p \<and> q div 2 ^ k = (r XOR 2 ^ k) div 2 ^ k} = {}"
proof -
  have e: "q div 2 ^ Suc k = r div 2 ^ Suc k \<longleftrightarrow>
           q div 2 ^ k = r div 2 ^ k \<or> q div 2 ^ k = (r XOR 2 ^ k) div 2 ^ k" for q
  proof -
    have d: "a div 2 ^ Suc k = (a div 2 ^ k) div 2" for a :: nat
    proof -
      have "a div 2 ^ Suc k = a div (2 ^ k * 2)" by (simp add: mult.commute)
      also have "\<dots> = (a div 2 ^ k) div 2" by (rule div_mult2_eq)
      finally show ?thesis .
    qed
    have "q div 2 ^ Suc k = (q div 2 ^ k) div 2" "r div 2 ^ Suc k = (r div 2 ^ k) div 2"
      by (rule d)+
    then show ?thesis by (simp only: div2_eq_iff xor_pow2_div)
  qed
  show "{q. q < p \<and> q div 2 ^ Suc k = r div 2 ^ Suc k}
           = {q. q < p \<and> q div 2 ^ k = r div 2 ^ k}
             \<union> {q. q < p \<and> q div 2 ^ k = (r XOR 2 ^ k) div 2 ^ k}"
    using e by blast
  show "{q. q < p \<and> q div 2 ^ k = r div 2 ^ k}
             \<inter> {q. q < p \<and> q div 2 ^ k = (r XOR 2 ^ k) div 2 ^ k} = {}"
    using xor_one_neq [of "r div 2 ^ k"] by (auto simp: xor_pow2_div)
qed

lemma rd_step_inv:
  fixes Ms :: "'a::comm_monoid_add Mat list"
  assumes inv: "rd_inv h w Ms k mats" and p: "length Ms = 2 ^ n" and k: "k < n"
  shows "rd_inv h w Ms (Suc k) (rd_step sum_transforms (2 ^ k) mats)"
  unfolding rd_inv_def
proof (intro conjI allI impI)
  have len: "length mats = length Ms" using inv by (simp add: rd_inv_def)
  show "length (rd_step sum_transforms (2 ^ k) mats) = length Ms"
    by (simp add: rd_step_def len)
  fix r assume r: "r < length Ms"
  define partner where "partner = r XOR 2 ^ k"
  have pr: "partner < length Ms"
    unfolding partner_def p using r k by (intro xor_pow2_less) (simp_all add: p)
  have sr: "mat_shape h w (mats ! r)" and sp: "mat_shape h w (mats ! partner)"
    using inv r pr by (simp_all add: rd_inv_def)
  have st: "rd_step sum_transforms (2 ^ k) mats ! r = mat_add (mats ! r) (mats ! partner)"
    using r
    by (simp add: rd_step_def len Let_def sum_transforms_sel partner_def
        send_sum_transforms [OF sp [unfolded partner_def]] view_ALL)
  show "mat_shape h w (rd_step sum_transforms (2 ^ k) mats ! r)"
    unfolding st using sr sp by (rule mat_add_shape)
  fix j i assume j: "j < w" and i: "i < h"
  let ?A = "{q. q < length Ms \<and> q div 2 ^ k = r div 2 ^ k}"
  let ?B = "{q. q < length Ms \<and> q div 2 ^ k = partner div 2 ^ k}"
  have fin: "finite ?A" "finite ?B" by simp_all
  have "Buffer (rd_step sum_transforms (2 ^ k) mats ! r) ! j ! i
          = Buffer (mats ! r) ! j ! i + Buffer (mats ! partner) ! j ! i"
    unfolding st using sr sp j i by (rule mat_add_nth)
  also have "Buffer (mats ! r) ! j ! i = sum (\<lambda>q. Buffer (Ms ! q) ! j ! i) ?A"
    using inv r j i by (simp add: rd_inv_def)
  also have "Buffer (mats ! partner) ! j ! i = sum (\<lambda>q. Buffer (Ms ! q) ! j ! i) ?B"
    using inv pr j i by (simp add: rd_inv_def)
  also have "sum (\<lambda>q. Buffer (Ms ! q) ! j ! i) ?A + sum (\<lambda>q. Buffer (Ms ! q) ! j ! i) ?B
               = sum (\<lambda>q. Buffer (Ms ! q) ! j ! i) (?A \<union> ?B)"
    using fin rd_block_split(2) [of "length Ms" k r]
    by (intro sum.union_disjoint [symmetric]) (simp_all add: partner_def)
  also have "?A \<union> ?B = {q. q < length Ms \<and> q div 2 ^ Suc k = r div 2 ^ Suc k}"
    using rd_block_split(1) [of "length Ms" k r] by (simp only: partner_def)
  finally show "Buffer (rd_step sum_transforms (2 ^ k) mats ! r) ! j ! i =
     sum (\<lambda>q. Buffer (Ms ! q) ! j ! i) {q. q < length Ms \<and> q div 2 ^ Suc k = r div 2 ^ Suc k}" .
qed

lemma rd_inv_init:
  fixes Ms :: "'a::comm_monoid_add Mat list"
  assumes "\<forall>M \<in> set Ms. mat_shape h w M"
  shows "rd_inv h w Ms 0 Ms"
  unfolding rd_inv_def
proof (intro conjI allI impI)
  fix r j i assume r: "r < length Ms"
  have "{q. q < length Ms \<and> q div 2 ^ 0 = r div 2 ^ 0} = {r}" using r by auto
  then show "Buffer (Ms ! r) ! j ! i = sum (\<lambda>q. Buffer (Ms ! q) ! j ! i) {q. q < length Ms \<and> q div 2 ^ 0 = r div 2 ^ 0}"
    by simp
qed (use assms in auto)

lemma rd_loop_inv:
  fixes Ms :: "'a::comm_monoid_add Mat list"
  assumes p: "length Ms = 2 ^ n" and n: "n < 31"
  shows "rd_inv h w Ms k mats \<Longrightarrow> k \<le> n \<Longrightarrow>
     \<exists>final. rd_loop sum_transforms (length Ms) (2 ^ k) mats = Some final
              \<and> rd_inv h w Ms n final"
proof (induction "n - k" arbitrary: k mats)
  case 0
  then have "k = n" by simp
  then have "rd_loop sum_transforms (length Ms) (2 ^ k) mats = Some mats"
    by (subst rd_loop.simps) (simp add: p)
  with 0 \<open>k = n\<close> show ?case by simp
next
  case (Suc d)
  then have k: "k < n" by simp
  have lt: "(2::nat) ^ k < 2 ^ n" using k by simp
  have "(2::nat) ^ Suc k \<le> 2 ^ 31" using k n by (intro power_increasing) simp_all
  then have md: "(2 * 2 ^ k) mod 2 ^ 32 = (2::nat) ^ Suc k" by simp
  have unf: "rd_loop sum_transforms (length Ms) (2 ^ k) mats
        = rd_loop sum_transforms (length Ms) (2 ^ Suc k) (rd_step sum_transforms (2 ^ k) mats)"
    by (subst rd_loop.simps) (simp only: p lt md if_True)
  have inv': "rd_inv h w Ms (Suc k) (rd_step sum_transforms (2 ^ k) mats)"
    using Suc.prems(1) p k by (rule rd_step_inv)
  have "d = n - Suc k" using Suc.hyps(2) by simp
  from Suc.hyps(1) [OF this inv'] k show ?case unfolding unf by simp
qed

lemma recursive_doubling_sum:
  fixes Ms :: "'a::comm_monoid_add Mat list"
  assumes p: "length Ms = 2 ^ n" and lt: "length Ms < 2 ^ 31"
    and sh: "\<forall>M \<in> set Ms. mat_shape h w M"
  shows "recursive_doubling_allreduce_pow2 sum_transforms Ms
           = Some (replicate (length Ms) (mat_sum Ms))"
proof -
  have ne: "Ms \<noteq> []" using p by auto
  have n: "n < 31" using lt unfolding p by (simp only: power_strict_increasing_iff)
  have "int (length Ms) \<noteq> 0" using ne by simp
  from and_pred_int [OF this] p
  have pw: "int (length Ms) AND (int (length Ms) - 1) = 0"
    by (metis of_nat_numeral of_nat_power)
  from rd_loop_inv [OF p n rd_inv_init [OF sh]] obtain final where
    fin: "rd_loop sum_transforms (length Ms) (2 ^ 0) Ms = Some final" "rd_inv h w Ms n final"
    by auto
  have sR: "mat_shape h w (mat_sum Ms)" using ne sh by (rule mat_sum_entries(1))
  have each: "final ! r = mat_sum Ms" if r: "r < length Ms" for r
  proof (rule mat_eqI [OF _ sR])
    show "mat_shape h w (final ! r)" using fin(2) r by (simp add: rd_inv_def)
    fix j i assume j: "j < w" and i: "i < h"
    have "{q. q < length Ms \<and> q div 2 ^ n = r div 2 ^ n} = {..<length Ms}"
      using r by (auto simp: p)
    then have "Buffer (final ! r) ! j ! i = (\<Sum>q<length Ms. Buffer (Ms ! q) ! j ! i)"
      using fin(2) r j i by (simp add: rd_inv_def)
    then show "Buffer (final ! r) ! j ! i = Buffer (mat_sum Ms) ! j ! i"
      using mat_sum_entries(2) [OF ne sh j i] by simp
  qed
  have "final = replicate (length Ms) (mat_sum Ms)"
    by (rule nth_equalityI) (use fin(2) each in \<open>simp_all add: rd_inv_def\<close>)
  then show ?thesis using fin(1) pw
    by (simp add: recursive_doubling_allreduce_pow2_def Let_def)
qed

subsection \<open>The entry point\<close>

text \<open>
  Claim C1. For every number \<open>P \<ge> 1\<close> of models (an \<open>int\<close>, so below \<open>2^31\<close>), all
  matrices \<open>M_0, ..., M_{P-1}\<close> of one shape with entries in a commutative monoid, and
  the identity encoding with elementwise sum as transforms: \<open>intermodel_allreduce\<close>
  returns, and leaves on every rank the same matrix, the sum
  \<open>M_0 + M_1 + ... + M_{P-1}\<close>. The same holds for the pairwise-exchange ring on its
  own for every \<open>P\<close>, and for recursive doubling on its own whenever \<open>P\<close> is a power
  of two, so the result does not depend on the path taken.
\<close>

theorem intermodel_allreduce_sum:
  fixes Ms :: "'a::comm_monoid_add Mat list"
  assumes ne: "Ms \<noteq> []" and lt: "length Ms < 2 ^ 31"
    and sh: "\<forall>M \<in> set Ms. mat_shape h w M"
  shows "intermodel_allreduce sum_transforms Ms = Some (replicate (length Ms) (mat_sum Ms))
       \<and> pe_ring_allreduce sum_transforms Ms = replicate (length Ms) (mat_sum Ms)
       \<and> ((\<exists>n. length Ms = 2 ^ n) \<longrightarrow>
            recursive_doubling_allreduce_pow2 sum_transforms Ms
              = Some (replicate (length Ms) (mat_sum Ms)))"
proof (intro conjI impI)
  show pe: "pe_ring_allreduce sum_transforms Ms = replicate (length Ms) (mat_sum Ms)"
    using ne sh by (rule pe_ring_allreduce_sum)
  show rd: "recursive_doubling_allreduce_pow2 sum_transforms Ms
              = Some (replicate (length Ms) (mat_sum Ms))" if "\<exists>n. length Ms = 2 ^ n"
  proof -
    from that obtain n where "length Ms = 2 ^ n" by blast
    then show ?thesis using lt sh by (rule recursive_doubling_sum)
  qed
  have hw: "\<forall>M \<in> set Ms. Height M = h \<and> Width M = w"
    using sh by (simp add: mat_shape_def Width_def)
  note dispatch = intermodel_allreduce_uniform [OF ne hw, of sum_transforms]
  show "intermodel_allreduce sum_transforms Ms = Some (replicate (length Ms) (mat_sum Ms))"
  proof (cases "intermodel_allreduce_algorithm (int (length Ms)) h w")
    case RecursiveDoubling
    then have "int (length Ms) AND (int (length Ms) - 1) = 0"
      by (auto simp: intermodel_allreduce_algorithm_def split: if_splits)
    moreover have "int (length Ms) \<noteq> 0" using ne by simp
    ultimately obtain k :: nat where "int (length Ms) = 2 ^ k"
      using and_pred_int by blast
    then have "length Ms = 2 ^ k" by (metis of_nat_eq_iff of_nat_numeral of_nat_power)
    then have "\<exists>n. length Ms = 2 ^ n" by blast
    from rd [OF this] RecursiveDoubling show ?thesis
      by (simp add: dispatch)
  next
    case PairwiseExchangeRing
    with pe show ?thesis by (simp add: dispatch)
  qed
qed

theorem intermodel_allreduce_sum_witness:
  "intermodel_allreduce sum_transforms mats_4
     = Some (replicate 4 \<lparr>Height = 1, Buffer = [[10]]\<rparr>)
   \<and> pe_ring_allreduce sum_transforms mats_3
     = replicate 3 \<lparr>Height = 1, Buffer = replicate 7 [6]\<rparr>
   \<and> recursive_doubling_allreduce_pow2 sum_transforms mats_4
     = Some (replicate 4 \<lparr>Height = 1, Buffer = [[10]]\<rparr>)"
proof -
  have a: "mats_4 \<noteq> []" "length mats_4 < 2 ^ 31" "\<forall>M \<in> set mats_4. mat_shape 1 1 M"
    by (simp_all add: mats_4_def mat_shape_def)
  have b: "mats_3 \<noteq> []" "length mats_3 < 2 ^ 31" "\<forall>M \<in> set mats_3. mat_shape 1 7 M"
    by (simp_all add: mats_3_def mat_shape_def)
  have pw: "\<exists>n. length mats_4 = 2 ^ n" by (rule exI [of _ 2]) (simp add: mats_4_def)
  have la: "length mats_4 = 4" and lb: "length mats_3 = 3"
    by (simp_all add: mats_4_def mats_3_def)
  have sa: "mat_sum mats_4 = \<lparr>Height = 1, Buffer = [[10]]\<rparr>"
    by (simp add: mats_4_def mat_sum_def mat_add_def)
  have sb: "mat_sum mats_3 = \<lparr>Height = 1, Buffer = replicate 7 [6]\<rparr>"
    by (simp add: mats_3_def mat_sum_def mat_add_def numeral_eq_Suc)
  from intermodel_allreduce_sum [OF a] intermodel_allreduce_sum [OF b] pw
  show ?thesis unfolding la lb sa sb by simp
qed

end
